theory Spec2Isabelle
  imports Complex_Main
begin

section \<open>Global lifetime analysis: the fitting engine of \<^verbatim>\<open>pyldm/fit/svd_ga.py\<close>\<close>

text \<open>
  The development embeds the numerical core of class \<^verbatim>\<open>SVD_GA\<close>: the decay-matrix
  generator \<^verbatim>\<open>_genD\<close>, the QR-based linear solver \<^verbatim>\<open>_getDAS\<close>, the residual
  objective \<^verbatim>\<open>_min\<close>, the driver \<^verbatim>\<open>_GA\<close>/\<^verbatim>\<open>Global\<close> and the column selection
  \<^verbatim>\<open>_get_wLSVs_for_fit\<close>.

  Arithmetic is exact: a finite float is a real number, rounding and overflow are not
  modelled. What IEEE 754 arithmetic does beyond the reals is modelled: NumPy float
  division by zero raises nothing (it emits a warning) and yields an infinity or a NaN,
  which then flows through the remaining operations. Zero carries no sign here; a zero
  divisor is read as \<open>+0\<close>.
\<close>

subsection \<open>Float values\<close>

datatype fval = Fin real | PInf | NInf | NaN

definition signed_inf :: "real \<Rightarrow> fval" where
  "signed_inf a = (if a = 0 then NaN else if 0 < a then PInf else NInf)"

fun fneg :: "fval \<Rightarrow> fval" where
  "fneg (Fin a) = Fin (- a)"
| "fneg PInf = NInf"
| "fneg NInf = PInf"
| "fneg NaN = NaN"

fun fadd :: "fval \<Rightarrow> fval \<Rightarrow> fval" where
  "fadd (Fin a) (Fin b) = Fin (a + b)"
| "fadd NaN y = NaN"
| "fadd x NaN = NaN"
| "fadd PInf NInf = NaN"
| "fadd NInf PInf = NaN"
| "fadd PInf y = PInf"
| "fadd x PInf = PInf"
| "fadd NInf y = NInf"
| "fadd x NInf = NInf"

fun fmul :: "fval \<Rightarrow> fval \<Rightarrow> fval" where
  "fmul (Fin a) (Fin b) = Fin (a * b)"
| "fmul NaN y = NaN"
| "fmul x NaN = NaN"
| "fmul (Fin a) PInf = signed_inf a"
| "fmul (Fin a) NInf = signed_inf (- a)"
| "fmul PInf (Fin b) = signed_inf b"
| "fmul NInf (Fin b) = signed_inf (- b)"
| "fmul PInf PInf = PInf"
| "fmul NInf NInf = PInf"
| "fmul PInf NInf = NInf"
| "fmul NInf PInf = NInf"

fun fdiv :: "fval \<Rightarrow> fval \<Rightarrow> fval" where
  "fdiv (Fin a) (Fin b) = (if b \<noteq> 0 then Fin (a / b) else signed_inf a)"
| "fdiv NaN y = NaN"
| "fdiv x NaN = NaN"
| "fdiv (Fin a) PInf = Fin 0"
| "fdiv (Fin a) NInf = Fin 0"
| "fdiv PInf (Fin b) = (if 0 \<le> b then PInf else NInf)"
| "fdiv NInf (Fin b) = (if 0 \<le> b then NInf else PInf)"
| "fdiv PInf PInf = NaN"
| "fdiv PInf NInf = NaN"
| "fdiv NInf PInf = NaN"
| "fdiv NInf NInf = NaN"

instantiation fval :: "{one, minus, uminus, times, inverse, comm_monoid_add}"
begin

definition zero_fval :: fval where
  "zero_fval = Fin 0"

definition one_fval :: fval where
  "one_fval = Fin 1"

definition plus_fval :: "fval \<Rightarrow> fval \<Rightarrow> fval" where
  "plus_fval x y = fadd x y"

definition uminus_fval :: "fval \<Rightarrow> fval" where
  "uminus_fval x = fneg x"

definition minus_fval :: "fval \<Rightarrow> fval \<Rightarrow> fval" where
  "minus_fval x y = fadd x (fneg y)"

definition times_fval :: "fval \<Rightarrow> fval \<Rightarrow> fval" where
  "times_fval x y = fmul x y"

definition divide_fval :: "fval \<Rightarrow> fval \<Rightarrow> fval" where
  "divide_fval x y = fdiv x y"

definition inverse_fval :: "fval \<Rightarrow> fval" where
  "inverse_fval x = fdiv (Fin 1) x"

instance
proof
  fix a b c :: fval
  show "a + b + c = a + (b + c)"
    by (cases a; cases b; cases c) (simp_all add: plus_fval_def)
  show "a + b = b + a"
    by (cases a; cases b) (simp_all add: plus_fval_def)
  show "0 + a = a"
    by (cases a) (simp_all add: plus_fval_def zero_fval_def)
qed

end

text \<open>
  \<^verbatim>\<open>scipy.special.erf\<close> is not part of the repository. On the reals it is the error
  function, given here by its Maclaurin series; at the infinities it takes its limits.
\<close>

definition erf :: "real \<Rightarrow> real" where
  "erf x = 2 / sqrt pi * (\<Sum>n. (- 1) ^ n * x ^ (2 * n + 1) / (fact n * real (2 * n + 1)))"

fun fexp :: "fval \<Rightarrow> fval" where
  "fexp (Fin a) = Fin (exp a)"
| "fexp PInf = PInf"
| "fexp NInf = Fin 0"
| "fexp NaN = NaN"

fun ferf :: "fval \<Rightarrow> fval" where
  "ferf (Fin a) = Fin (erf a)"
| "ferf PInf = Fin 1"
| "ferf NInf = Fin (- 1)"
| "ferf NaN = NaN"

definition finite_val :: "fval \<Rightarrow> bool" where
  "finite_val x = (case x of Fin a \<Rightarrow> True | _ \<Rightarrow> False)"

text \<open>
  The comparison \<^verbatim>\<open>x <= y\<close> of floats: false as soon as one side is NaN.
\<close>

fun fle :: "fval \<Rightarrow> fval \<Rightarrow> bool" where
  "fle NaN y = False"
| "fle x NaN = False"
| "fle (Fin a) (Fin b) = (a \<le> b)"
| "fle NInf y = True"
| "fle x PInf = True"
| "fle PInf y = False"
| "fle x NInf = False"

subsection \<open>Errors\<close>

datatype error = IndexError | ValueError | NameError | DomainError | SingularMatrixError

text \<open>
  An exception ends the computation that raises it: \<open>collect\<close> runs a list of
  computations from left to right and stops at the first one that raises.
\<close>

fun collect :: "(error + 'a) list \<Rightarrow> error + 'a list" where
  "collect [] = Inr []"
| "collect (x # xs) =
     (case x of
        Inl e \<Rightarrow> Inl e
      | Inr v \<Rightarrow> (case collect xs of Inl e \<Rightarrow> Inl e | Inr vs \<Rightarrow> Inr (v # vs)))"

subsection \<open>The names of the module\<close>

text \<open>
  The module's imports are \<^verbatim>\<open>matplotlib.pyplot as plt\<close>, \<^verbatim>\<open>numpy as np\<close>,
  \<^verbatim>\<open>minimize\<close>, the star export of \<^verbatim>\<open>scipy.linalg\<close>, \<^verbatim>\<open>erf\<close>, \<^verbatim>\<open>Slider\<close> and
  \<^verbatim>\<open>DiscreteSlider\<close>. The star export of \<^verbatim>\<open>scipy.linalg\<close> holds the matrix functions
  (\<^verbatim>\<open>expm\<close>, \<^verbatim>\<open>sqrtm\<close>, \<^verbatim>\<open>logm\<close>) and the decompositions, not the scalar functions:
  nothing binds the bare names \<^verbatim>\<open>exp\<close>, \<^verbatim>\<open>sqrt\<close> and \<^verbatim>\<open>log\<close> that \<^verbatim>\<open>_genD\<close> reads,
  and reading one of them raises \<^verbatim>\<open>NameError\<close>. (\<^verbatim>\<open>np.exp\<close> is an attribute of the bound
  name \<^verbatim>\<open>np\<close>, and \<^verbatim>\<open>erf\<close> is bound.) A name lookup is a computation that gives the
  function bound to the name, or raises.
\<close>

definition exp_name :: "error + (fval \<Rightarrow> fval)" where
  "exp_name = Inl NameError"

definition sqrt_name :: "error + (fval \<Rightarrow> fval)" where
  "sqrt_name = Inl NameError"

definition log_name :: "error + (fval \<Rightarrow> fval)" where
  "log_name = Inl NameError"

subsection \<open>The decay-matrix generator \<^verbatim>\<open>_genD\<close>\<close>

text \<open>
  \<^verbatim>\<open>fwhm_mod = fwhm/(2*sqrt(log(2)))\<close>: the operands \<^verbatim>\<open>fwhm\<close> and \<^verbatim>\<open>2\<close> are read,
  then the name \<^verbatim>\<open>sqrt\<close> is looked up, then the name \<^verbatim>\<open>log\<close>.
\<close>

definition fwhm_mod_of :: "real \<Rightarrow> error + fval" where
  "fwhm_mod_of fwhm =
     (case sqrt_name of
        Inl e \<Rightarrow> Inl e
      | Inr sqrt' \<Rightarrow>
          (case log_name of
             Inl e \<Rightarrow> Inl e
           | Inr log' \<Rightarrow> Inr (Fin fwhm / (Fin 2 * sqrt' (log' (Fin 2))))))"

text \<open>
  The two convolved branches of \<^verbatim>\<open>_genD\<close> are the same statements in the width \<open>w\<close>
  (\<^verbatim>\<open>fwhm_mod\<close> when fitting the width, \<^verbatim>\<open>self.FWHM_mod\<close> otherwise):
  \<^verbatim>\<open>One = 0.5*(np.exp(-t/tau)*exp(w**2/(2*tau))/tau)\<close>,
  \<^verbatim>\<open>Two = 1 + erf((t-(w**2/tau))/(sqrt(2)*w))\<close>, \<^verbatim>\<open>D[i, j] = One*Two\<close>.
  In \<^verbatim>\<open>One\<close> the call \<^verbatim>\<open>np.exp(-t/tau)\<close> is evaluated first (on NumPy floats it raises
  nothing), then the name \<^verbatim>\<open>exp\<close> is looked up; in \<^verbatim>\<open>Two\<close> the argument of \<^verbatim>\<open>erf\<close>
  looks up \<^verbatim>\<open>sqrt\<close>.
\<close>

definition convolved :: "fval \<Rightarrow> real \<Rightarrow> real \<Rightarrow> error + fval" where
  "convolved w t tau =
     (let a = fexp (Fin (- t) / Fin tau)
      in case exp_name of
           Inl e \<Rightarrow> Inl e
         | Inr exp' \<Rightarrow>
             (let One = Fin 0.5 * (a * exp' (w * w / Fin (2 * tau)) / Fin tau)
              in case sqrt_name of
                   Inl e \<Rightarrow> Inl e
                 | Inr sqrt' \<Rightarrow>
                     (let Two = Fin 1 + ferf ((Fin t - w * w / Fin tau) / (sqrt' (Fin 2) * w))
                      in Inr (One * Two))))"

definition unconvolved :: "real \<Rightarrow> real \<Rightarrow> fval" where
  "unconvolved t tau = fexp (Fin (- t) / Fin tau)"

text \<open>
  \<open>genD FWHM_mod taus T fit_irf\<close>: \<open>FWHM_mod\<close> is the stored attribute
  \<^verbatim>\<open>self.FWHM_mod\<close>. With \<open>fit_irf\<close> the array is allocated with \<^verbatim>\<open>len(taus)-1\<close>
  columns, where \<^verbatim>\<open>np.zeros\<close> raises \<^verbatim>\<open>ValueError\<close> for the negative dimension of an
  empty \<open>taus\<close>; then the width is converted. The double loop computes the entries row
  by row, each from \<^verbatim>\<open>T[i]\<close> and \<^verbatim>\<open>taus[j]\<close>; an array without rows or without columns
  is returned as allocated.
\<close>

definition genD :: "real \<Rightarrow> real list \<Rightarrow> real list \<Rightarrow> bool \<Rightarrow> error + fval list list" where
  "genD FWHM_mod taus T fit_irf =
     (if fit_irf then
        (if taus = [] then Inl ValueError
         else
           (case fwhm_mod_of (last taus) of
              Inl e \<Rightarrow> Inl e
            | Inr fwhm_mod \<Rightarrow>
                collect (map (\<lambda>i. collect (map (\<lambda>j. convolved fwhm_mod (T ! i) (taus ! j))
                                                [0..<length taus - 1]))
                             [0..<length T])))
      else
        collect (map (\<lambda>i. collect (map (\<lambda>j. if FWHM_mod \<noteq> 0
                                             then convolved (Fin FWHM_mod) (T ! i) (taus ! j)
                                             else Inr (unconvolved (T ! i) (taus ! j)))
                                        [0..<length taus]))
                     [0..<length T]))"

subsection \<open>Two-dimensional arrays\<close>

text \<open>
  A two-dimensional array is the list of its rows, all of one length. An array without
  rows does not record its number of columns; \<open>ncols\<close> reads it as 0, and the theorems
  below are about arrays with at least one row.
\<close>

type_synonym 'a matrix = "'a list list"

definition ncols :: "'a matrix \<Rightarrow> nat" where
  "ncols A = (case A of [] \<Rightarrow> 0 | r # rs \<Rightarrow> length r)"

definition is_matrix :: "nat \<Rightarrow> nat \<Rightarrow> 'a matrix \<Rightarrow> bool" where
  "is_matrix m n A = (length A = m \<and> list_all (\<lambda>r. length r = n) A)"

definition zeros :: "nat \<Rightarrow> nat \<Rightarrow> 'a::zero matrix" where
  "zeros m n = replicate m (replicate n 0)"

definition identity :: "nat \<Rightarrow> 'a::{zero,one} matrix" where
  "identity n = map (\<lambda>i. map (\<lambda>j. if i = j then 1 else 0) [0..<n]) [0..<n]"

definition scale :: "'a::times \<Rightarrow> 'a matrix \<Rightarrow> 'a matrix" where
  "scale a A = map (map (\<lambda>x. a * x)) A"

definition transpose_np :: "'a matrix \<Rightarrow> 'a matrix" where
  "transpose_np A = map (\<lambda>j. map (\<lambda>r. r ! j) A) [0..<ncols A]"

text \<open>
  \<^verbatim>\<open>A.dot(B)\<close> raises \<^verbatim>\<open>ValueError\<close> when the rows of \<open>A\<close> are not as long as \<open>B\<close> has
  rows.
\<close>

definition dot :: "'a::{comm_monoid_add,times} matrix \<Rightarrow> 'a matrix \<Rightarrow> error + 'a matrix" where
  "dot A B =
     (if list_all (\<lambda>r. length r = length B) A
      then Inr (map (\<lambda>r. map (\<lambda>n. \<Sum>k\<leftarrow>[0..<length B]. r ! k * B ! k ! n) [0..<ncols B]) A)
      else Inl ValueError)"

definition vadd :: "'a::plus list \<Rightarrow> 'a list \<Rightarrow> 'a list" where
  "vadd u v = map2 (+) u v"

definition vsub :: "'a::minus list \<Rightarrow> 'a list \<Rightarrow> 'a list" where
  "vsub u v = map2 (-) u v"

definition smul :: "'a::times \<Rightarrow> 'a list \<Rightarrow> 'a list" where
  "smul a v = map (\<lambda>x. a * x) v"

definition vdiv :: "'a::inverse list \<Rightarrow> 'a \<Rightarrow> 'a list" where
  "vdiv v a = map (\<lambda>x. x / a) v"

definition msub :: "'a::minus matrix \<Rightarrow> 'a matrix \<Rightarrow> 'a matrix" where
  "msub A B = map2 vsub A B"

definition sum_squares :: "'a::{comm_monoid_add,times} matrix \<Rightarrow> 'a" where
  "sum_squares A = (\<Sum>r\<leftarrow>A. \<Sum>x\<leftarrow>r. x * x)"

subsection \<open>The linear solver \<^verbatim>\<open>_getDAS\<close>\<close>

text \<open>
  The back-substitution of the source, on the array \<open>DAS\<close> it updates in place. The
  inner loop runs over \<^verbatim>\<open>k in range(i+1, len(DAS))\<close>; each step adds to the running
  sum \<open>s\<close> and then reassigns row \<open>i\<close>. \<^verbatim>\<open>R[i, k]\<close>, \<^verbatim>\<open>R[i, i]\<close> and \<^verbatim>\<open>QtY[i, :]\<close> raise
  \<^verbatim>\<open>IndexError\<close> out of range. The sum starts as the scalar \<^verbatim>\<open>0\<close>, which the first
  addition broadcasts over the row.
\<close>

fun inner_loop ::
  "'a::{comm_monoid_add,minus,times,inverse} matrix \<Rightarrow> 'a matrix \<Rightarrow> nat \<Rightarrow> nat list \<Rightarrow>
     'a list \<times> 'a matrix \<Rightarrow> error + ('a list \<times> 'a matrix)" where
  "inner_loop R QtY i [] (s, DAS) = Inr (s, DAS)"
| "inner_loop R QtY i (k # ks) (s, DAS) =
     (if i < length R \<and> k < length (R ! i) \<and> i < length QtY
      then
        let s' = vadd s (smul (R ! i ! k) (DAS ! k));
            DAS' = DAS[i := vdiv (vsub (QtY ! i) s') (R ! i ! i)]
        in inner_loop R QtY i ks (s', DAS')
      else Inl IndexError)"

fun outer_loop ::
  "'a::{comm_monoid_add,minus,times,inverse} matrix \<Rightarrow> 'a matrix \<Rightarrow> nat list \<Rightarrow>
     'a matrix \<Rightarrow> error + 'a matrix" where
  "outer_loop R QtY [] DAS = Inr DAS"
| "outer_loop R QtY (i # is) DAS =
     (case inner_loop R QtY i [i + 1..<length DAS] (replicate (ncols DAS) 0, DAS) of
        Inl e \<Rightarrow> Inl e
      | Inr (s, DAS') \<Rightarrow> outer_loop R QtY is DAS')"

text \<open>
  \<^verbatim>\<open>DAS[-1, :] = QtY[-1, :]/R[-1, -1]\<close> needs a last row in each of the three arrays and a
  last entry in the last row of \<open>R\<close>; then \<^verbatim>\<open>i\<close> runs from \<^verbatim>\<open>len(DAS)-2\<close> down to 0.
\<close>

definition back_substitution ::
  "'a::{comm_monoid_add,minus,times,inverse} matrix \<Rightarrow> 'a matrix \<Rightarrow> 'a matrix \<Rightarrow>
     error + 'a matrix" where
  "back_substitution R QtY DAS =
     (if DAS = [] \<or> QtY = [] \<or> R = [] \<or> last R = [] then Inl IndexError
      else
        let DAS1 = DAS[length DAS - 1 := vdiv (last QtY) (last (last R))]
        in outer_loop R QtY (rev [0..<length DAS - 1]) DAS1)"

text \<open>
  Back-substitution as the specification writes it:
  \<^verbatim>\<open>X[K-1,:] = Z[K-1,:] / R[K-1,K-1]\<close> and, for \<open>i\<close> from \<open>K-2\<close> down to 0,
  \<^verbatim>\<open>X[i,:] = (Z[i,:] - sum over k > i of R[i,k] * X[k,:]) / R[i,i]\<close>.
\<close>

function spec_entry ::
  "'a::{comm_monoid_add,minus,times,inverse} matrix \<Rightarrow> 'a matrix \<Rightarrow> nat \<Rightarrow> nat \<Rightarrow> nat \<Rightarrow> 'a" where
  "spec_entry R Z K i c =
     (if Suc i = K then Z ! i ! c / R ! i ! i
      else (Z ! i ! c - (\<Sum>k\<leftarrow>[Suc i..<K]. R ! i ! k * spec_entry R Z K k c)) / R ! i ! i)"
  by pat_completeness auto
termination
  by (relation "measure (\<lambda>(R, Z, K, i, c). K - i)") auto

definition spec_row ::
  "'a::{comm_monoid_add,minus,times,inverse} matrix \<Rightarrow> 'a matrix \<Rightarrow> nat \<Rightarrow> nat \<Rightarrow> nat \<Rightarrow> 'a list" where
  "spec_row R Z K N i = map (\<lambda>c. spec_entry R Z K i c) [0..<N]"

definition spec_back_substitution ::
  "'a::{comm_monoid_add,minus,times,inverse} matrix \<Rightarrow> 'a matrix \<Rightarrow> nat \<Rightarrow> nat \<Rightarrow> 'a matrix" where
  "spec_back_substitution R Z K N = map (\<lambda>i. spec_row R Z K N i) [0..<K]"

text \<open>
  \<^verbatim>\<open>alpha**(0.5)\<close>: the square root of a non-negative weight. For a negative weight a
  NumPy scalar gives NaN; the specification's weights are non-negative.
\<close>

definition fsqrt :: "real \<Rightarrow> fval" where
  "fsqrt a = (if 0 \<le> a then Fin (sqrt a) else NaN)"

text \<open>
  \<^verbatim>\<open>np.linalg.qr\<close> is not part of the repository: the solver takes it as the parameter
  \<open>qr\<close>, which returns the pair \<open>(Q, R)\<close>. \<^verbatim>\<open>len(D[0])\<close> and \<^verbatim>\<open>len(Y[0])\<close> raise
  \<^verbatim>\<open>IndexError\<close> on an array without rows.
\<close>

definition getDAS ::
  "(fval matrix \<Rightarrow> fval matrix \<times> fval matrix) \<Rightarrow> fval matrix \<Rightarrow> fval matrix \<Rightarrow> real \<Rightarrow>
     error + fval matrix" where
  "getDAS qr D Y alpha =
     (if D = [] \<or> Y = [] then Inl IndexError
      else
        let D_aug = (if alpha \<noteq> 0 then D @ scale (fsqrt alpha) (identity (length (D ! 0))) else D);
            Y_aug = (if alpha \<noteq> 0 then Y @ zeros (length (D_aug ! 0)) (length (Y ! 0)) else Y);
            (Q, R) = qr D_aug;
            Qt = transpose_np Q;
            DAS = zeros (length (D_aug ! 0)) (length (Y_aug ! 0))
        in case dot Qt Y_aug of
             Inl e \<Rightarrow> Inl e
           | Inr QtY \<Rightarrow> back_substitution R QtY DAS)"

text \<open>
  For the statements about the solver: the arrays \<^verbatim>\<open>D_aug\<close> and \<^verbatim>\<open>Y_aug\<close> that \<open>getDAS\<close>
  builds, and the product \<^verbatim>\<open>Qt.dot(Y_aug)\<close> with its \<open>K\<close> rows and \<open>N\<close> columns.
\<close>

definition D_aug_of :: "real \<Rightarrow> fval matrix \<Rightarrow> fval matrix" where
  "D_aug_of alpha D =
     (if alpha \<noteq> 0 then D @ scale (fsqrt alpha) (identity (length (D ! 0))) else D)"

definition Y_aug_of :: "real \<Rightarrow> nat \<Rightarrow> fval matrix \<Rightarrow> fval matrix" where
  "Y_aug_of alpha K Y = (if alpha \<noteq> 0 then Y @ zeros K (length (Y ! 0)) else Y)"

definition QtY_of ::
  "'a::{comm_monoid_add,times} matrix \<Rightarrow> 'a matrix \<Rightarrow> nat \<Rightarrow> nat \<Rightarrow> 'a matrix" where
  "QtY_of Q Y K N =
     map (\<lambda>l. map (\<lambda>n. \<Sum>i\<leftarrow>[0..<length Y]. Q ! i ! l * Y ! i ! n) [0..<N]) [0..<K]"

subsection \<open>The objective \<^verbatim>\<open>_min\<close> and the driver \<^verbatim>\<open>_GA\<close>\<close>

text \<open>
  \<open>lift\<close> reads an array of finite floats. The objective is \<^verbatim>\<open>np.sum((Y - D.dot(DAS))**2)\<close>.
\<close>

definition lift :: "real matrix \<Rightarrow> fval matrix" where
  "lift A = map (map Fin) A"

definition residual :: "fval matrix \<Rightarrow> fval matrix \<Rightarrow> fval matrix \<Rightarrow> error + fval" where
  "residual Y D DAS =
     (case dot D DAS of
        Inl e \<Rightarrow> Inl e
      | Inr P \<Rightarrow> Inr (sum_squares (msub Y P)))"

definition min_objective ::
  "(fval matrix \<Rightarrow> fval matrix \<times> fval matrix) \<Rightarrow> real \<Rightarrow> real list \<Rightarrow> fval matrix \<Rightarrow>
     real list \<Rightarrow> real \<Rightarrow> bool \<Rightarrow> error + fval" where
  "min_objective qr FWHM_mod taus Y T alpha fit_irf =
     (case genD FWHM_mod taus T fit_irf of
        Inl e \<Rightarrow> Inl e
      | Inr D \<Rightarrow>
          (case getDAS qr D Y alpha of
             Inl e \<Rightarrow> Inl e
           | Inr DAS \<Rightarrow> residual Y D DAS))"

text \<open>
  The objective once the decay matrix is built: the last two statements of \<^verbatim>\<open>_min\<close>,
  the solve and the sum of squared residuals.
\<close>

definition training_residual ::
  "(fval matrix \<Rightarrow> fval matrix \<times> fval matrix) \<Rightarrow> fval matrix \<Rightarrow> fval matrix \<Rightarrow> real \<Rightarrow> error + fval" where
  "training_residual qr D Y alpha =
     (case getDAS qr D Y alpha of Inl e \<Rightarrow> Inl e | Inr DAS \<Rightarrow> residual Y D DAS)"

subsection \<open>Column selection \<^verbatim>\<open>_get_wLSVs_for_fit\<close>\<close>

text \<open>
  \<^verbatim>\<open>str.split()\<close> cuts the selector at runs of whitespace and drops empty pieces;
  \<^verbatim>\<open>int\<close> reads an optional sign and decimal digits and raises \<^verbatim>\<open>ValueError\<close> on anything
  else. The model is that of ASCII text (digit-group underscores and non-ASCII digits
  and spaces are left out).
\<close>

definition is_space :: "char \<Rightarrow> bool" where
  "is_space c = (c \<in> set [CHR '' '', CHR 0x09, CHR 0x0A, CHR 0x0B, CHR 0x0C, CHR 0x0D,
                           CHR 0x1C, CHR 0x1D, CHR 0x1E, CHR 0x1F])"

fun split_from :: "string \<Rightarrow> string \<Rightarrow> string list" where
  "split_from cur [] = (if cur = [] then [] else [cur])"
| "split_from cur (c # cs) =
     (if is_space c then (if cur = [] then split_from [] cs else cur # split_from [] cs)
      else split_from (cur @ [c]) cs)"

definition str_split :: "string \<Rightarrow> string list" where
  "str_split s = split_from [] s"

definition is_digit :: "char \<Rightarrow> bool" where
  "is_digit c = (48 \<le> (of_char c :: nat) \<and> (of_char c :: nat) \<le> 57)"

definition digits_value :: "string \<Rightarrow> nat" where
  "digits_value ds = foldl (\<lambda>a c. 10 * a + ((of_char c :: nat) - 48)) 0 ds"

definition str_to_int :: "string \<Rightarrow> error + int" where
  "str_to_int s =
     (let (neg, ds) = (case s of
                         c # r \<Rightarrow> if c = CHR ''-'' then (True, r)
                                  else if c = CHR ''+'' then (False, r) else (False, s)
                       | [] \<Rightarrow> (False, s))
      in if ds \<noteq> [] \<and> list_all is_digit ds
         then Inr (if neg then - int (digits_value ds) else int (digits_value ds))
         else Inl ValueError)"

fun map_int :: "string list \<Rightarrow> error + int list" where
  "map_int [] = Inr []"
| "map_int (t # ts) =
     (case str_to_int t of
        Inl e \<Rightarrow> Inl e
      | Inr n \<Rightarrow> (case map_int ts of Inl e \<Rightarrow> Inl e | Inr ns \<Rightarrow> Inr (n # ns)))"

text \<open>
  \<^verbatim>\<open>A[:, :n]\<close> keeps the first \<open>n\<close> entries of every row, or all but the last \<open>-n\<close> for a
  negative \<open>n\<close>. \<^verbatim>\<open>A[:, c]\<close> is column \<open>c\<close>, counted from the end for a negative \<open>c\<close>, and
  raises \<^verbatim>\<open>IndexError\<close> out of range.
\<close>

definition slice_columns :: "'a matrix \<Rightarrow> int \<Rightarrow> 'a matrix" where
  "slice_columns A n =
     map (\<lambda>r. if 0 \<le> n then take (nat n) r else take (length r - nat (- n)) r) A"

definition column :: "'a matrix \<Rightarrow> int \<Rightarrow> error + 'a list" where
  "column A c =
     (let C = int (ncols A); c' = (if c < 0 then c + C else c)
      in if 0 \<le> c' \<and> c' < C then Inr (map (\<lambda>r. r ! nat c') A) else Inl IndexError)"

text \<open>
  \<^verbatim>\<open>wLSV_fit[:, j] = v\<close> writes column \<open>j\<close>; a one-entry \<open>v\<close> is broadcast, any other
  length mismatch raises \<^verbatim>\<open>ValueError\<close>.
\<close>

definition assign_column :: "'a matrix \<Rightarrow> nat \<Rightarrow> 'a list \<Rightarrow> error + 'a matrix" where
  "assign_column A j v =
     (if length v = length A then Inr (map2 (\<lambda>r x. r[j := x]) A v)
      else if length v = 1 then Inr (map (\<lambda>r. r[j := v ! 0]) A)
      else Inl ValueError)"

fun fill_columns :: "real matrix \<Rightarrow> int list \<Rightarrow> nat \<Rightarrow> real matrix \<Rightarrow> error + real matrix" where
  "fill_columns wLSV [] j wLSV_fit = Inr wLSV_fit"
| "fill_columns wLSV (n # ns) j wLSV_fit =
     (case column wLSV (n - 1) of
        Inl e \<Rightarrow> Inl e
      | Inr v \<Rightarrow>
          (case assign_column wLSV_fit j v of
             Inl e \<Rightarrow> Inl e
           | Inr wLSV_fit' \<Rightarrow> fill_columns wLSV ns (j + 1) wLSV_fit'))"

text \<open>
  \<open>get_wLSVs_for_fit wLSV T wLSV_indices B\<close>, with the attributes \<^verbatim>\<open>self.wLSV\<close> and
  \<^verbatim>\<open>self.T\<close> as arguments. The test \<^verbatim>\<open>wLSV_indices is None\<close> follows
  \<^verbatim>\<open>list(map(int, ...))\<close> and is never true; its branch is kept as the source has it.
\<close>

definition get_wLSVs_for_fit ::
  "real matrix \<Rightarrow> real list \<Rightarrow> string \<Rightarrow> (real \<times> real) list option \<Rightarrow>
     error + (int list \<times> real matrix)" where
  "get_wLSVs_for_fit wLSV T wLSV_indices B =
     (let toks = str_split wLSV_indices
      in if toks \<noteq> [] then
           (case map_int toks of
              Inl e \<Rightarrow> Inl e
            | Inr idx \<Rightarrow>
                if False then
                  (case B of
                     Some b \<Rightarrow> Inr (idx, slice_columns wLSV (int (length b)))
                   | None \<Rightarrow> Inr (idx, slice_columns wLSV 3))
                else if length idx = 1 then Inr (idx, slice_columns wLSV (idx ! 0))
                else
                  (case fill_columns wLSV idx 0 (zeros (length T) (length idx)) of
                     Inl e \<Rightarrow> Inl e
                   | Inr wLSV_fit \<Rightarrow> Inr (idx, wLSV_fit)))
         else Inr ([3], slice_columns wLSV 3))"

subsection \<open>The fit: \<^verbatim>\<open>_GA\<close> and \<^verbatim>\<open>Global\<close>\<close>

text \<open>
  \<^verbatim>\<open>scipy.optimize.minimize\<close> is the parameter \<open>minimize\<close>: it takes the objective, the
  start vector and the bounds and returns the vector \<^verbatim>\<open>result.x\<close>, or the exception
  that left it. \<open>Global\<close> returns the lifetimes and, when the width is fitted, the
  width; printing and plotting are left out.
\<close>

definition GA ::
  "((real list \<Rightarrow> error + fval) \<Rightarrow> real list \<Rightarrow> (real \<times> real) list option \<Rightarrow> error + real list) \<Rightarrow>
   (fval matrix \<Rightarrow> fval matrix \<times> fval matrix) \<Rightarrow> real \<Rightarrow> real list \<Rightarrow> fval matrix \<Rightarrow>
   real list \<Rightarrow> real \<Rightarrow> (real \<times> real) list option \<Rightarrow> bool \<Rightarrow>
     error + (real list \<times> fval matrix \<times> fval matrix)" where
  "GA minimize qr FWHM_mod x0 Y T alpha B fit_irf =
     (case minimize (\<lambda>taus. min_objective qr FWHM_mod taus Y T alpha fit_irf) x0 B of
        Inl e \<Rightarrow> Inl e
      | Inr taus \<Rightarrow>
          (case genD FWHM_mod taus T fit_irf of
             Inl e \<Rightarrow> Inl e
           | Inr D \<Rightarrow>
               (case getDAS qr D Y alpha of
                  Inl e \<Rightarrow> Inl e
                | Inr DAS \<Rightarrow>
                    (case dot D DAS of
                       Inl e \<Rightarrow> Inl e
                     | Inr SpecFit \<Rightarrow> Inr (taus, DAS, SpecFit)))))"

definition Global ::
  "((real list \<Rightarrow> error + fval) \<Rightarrow> real list \<Rightarrow> (real \<times> real) list option \<Rightarrow> error + real list) \<Rightarrow>
   (fval matrix \<Rightarrow> fval matrix \<times> fval matrix) \<Rightarrow> real matrix \<Rightarrow> real list \<Rightarrow> real \<Rightarrow>
   string \<Rightarrow> real list \<Rightarrow> (real \<times> real) list option \<Rightarrow> real \<Rightarrow> bool \<Rightarrow>
     error + (real list \<times> real option)" where
  "Global minimize qr wLSV T FWHM_mod wLSVs x0 B alpha fit_irf =
     (case get_wLSVs_for_fit wLSV T wLSVs B of
        Inl e \<Rightarrow> Inl e
      | Inr (wLSV_indices, wLSV_fit) \<Rightarrow>
          (case GA minimize qr FWHM_mod x0 (lift wLSV_fit) T alpha B fit_irf of
             Inl e \<Rightarrow> Inl e
           | Inr (taus, DAS, SpecFit) \<Rightarrow>
               if fit_irf then Inr (butlast taus, Some (last taus))
               else Inr (taus, None)))"

subsection \<open>Least squares on the reals\<close>

text \<open>
  The notions the statements about the solver use, on arrays of real numbers: the
  augmented arrays, the contract of the reduced QR factorisation of an \<open>m \<times> k\<close> array
  (\<open>Q\<close> is \<open>m \<times> k\<close> with orthonormal columns, \<open>R\<close> is \<open>k \<times> k\<close> and upper triangular,
  \<open>Q R = A\<close>), the sum of squared residuals \<open>\<Sum>(Y - D X)\<^sup>2\<close> and the ridge cost
  \<open>\<Sum>(Y - D X)\<^sup>2 + alpha * \<Sum>X\<^sup>2\<close>.
\<close>

definition aug_D :: "real \<Rightarrow> real matrix \<Rightarrow> real matrix" where
  "aug_D alpha D = (if alpha \<noteq> 0 then D @ scale (sqrt alpha) (identity (ncols D)) else D)"

definition aug_Y :: "real \<Rightarrow> nat \<Rightarrow> real matrix \<Rightarrow> real matrix" where
  "aug_Y alpha K Y = (if alpha \<noteq> 0 then Y @ zeros K (ncols Y) else Y)"

definition qr_factors :: "real matrix \<Rightarrow> real matrix \<Rightarrow> real matrix \<Rightarrow> bool" where
  "qr_factors A Q R =
     (let m = length A; k = ncols A
      in is_matrix m k Q \<and> is_matrix k k R \<and>
         (\<forall>l<k. \<forall>l'<k. (\<Sum>i\<leftarrow>[0..<m]. Q ! i ! l * Q ! i ! l') = (if l = l' then 1 else 0)) \<and>
         (\<forall>i<k. \<forall>j<i. R ! i ! j = 0) \<and>
         (\<forall>i<m. \<forall>j<k. (\<Sum>l\<leftarrow>[0..<k]. Q ! i ! l * R ! l ! j) = A ! i ! j))"

definition residual_sum :: "real matrix \<Rightarrow> real matrix \<Rightarrow> real matrix \<Rightarrow> real" where
  "residual_sum D Y X =
     (\<Sum>i\<leftarrow>[0..<length Y]. \<Sum>n\<leftarrow>[0..<ncols Y].
        (Y ! i ! n - (\<Sum>k\<leftarrow>[0..<length X]. D ! i ! k * X ! k ! n))\<^sup>2)"

definition ridge_cost :: "real \<Rightarrow> real matrix \<Rightarrow> real matrix \<Rightarrow> real matrix \<Rightarrow> real" where
  "ridge_cost alpha D Y X =
     residual_sum D Y X + alpha * (\<Sum>k\<leftarrow>[0..<length X]. \<Sum>n\<leftarrow>[0..<ncols X]. (X ! k ! n)\<^sup>2)"

section \<open>Float arithmetic on finite values\<close>

lemma fval_arith_simps:
  "x + y = fadd x y" "x - y = fadd x (fneg y)" "- x = fneg x"
  "x * y = fmul x y" "x / y = fdiv x y" "(0::fval) = Fin 0" "(1::fval) = Fin 1"
  by (simp_all add: plus_fval_def minus_fval_def uminus_fval_def times_fval_def
      divide_fval_def zero_fval_def one_fval_def)

lemma Fin_add [simp]: "Fin a + Fin b = Fin (a + b)"
  by (simp add: fval_arith_simps)

lemma Fin_diff [simp]: "Fin a - Fin b = Fin (a - b)"
  by (simp add: fval_arith_simps)

lemma Fin_mult [simp]: "Fin a * Fin b = Fin (a * b)"
  by (simp add: fval_arith_simps)

lemma Fin_divide [simp]: "b \<noteq> 0 \<Longrightarrow> Fin a / Fin b = Fin (a / b)"
  by (simp add: fval_arith_simps)

lemma Fin_divide_zero: "Fin a / Fin 0 = signed_inf a"
  by (simp add: fval_arith_simps)

lemma erf_0 [simp]: "erf 0 = 0"
  by (simp add: erf_def)

section \<open>The decay-matrix generator\<close>



lemma is_matrix_iff: "is_matrix m n A \<longleftrightarrow> length A = m \<and> (\<forall>i<m. length (A ! i) = n)"
  by (auto simp: is_matrix_def list_all_length)

lemma ncols_is_matrix: "is_matrix m n A \<Longrightarrow> 0 < m \<Longrightarrow> ncols A = n"
  by (cases A) (auto simp: is_matrix_def ncols_def)

lemma collect_Inr: "collect (map (\<lambda>x. Inr (f x)) xs) = Inr (map f xs)"
  by (induction xs) simp_all

lemma collect_Inl:
  assumes "xs \<noteq> []" "f (hd xs) = Inl e"
  shows "collect (map f xs) = Inl e"
  using assms by (cases xs) simp_all

lemma fwhm_mod_of_raises: "fwhm_mod_of fwhm = Inl NameError"
  by (simp add: fwhm_mod_of_def sqrt_name_def)

lemma convolved_raises: "convolved w t tau = Inl NameError"
  by (simp add: convolved_def exp_name_def)

lemma genD_fit_irf: "genD FWHM_mod taus T True = (if taus = [] then Inl ValueError else Inl NameError)"
  by (simp add: genD_def fwhm_mod_of_raises)

lemma genD_stored_width:
  assumes "FWHM_mod \<noteq> 0" "T \<noteq> []" "taus \<noteq> []"
  shows "genD FWHM_mod taus T False = Inl NameError"
proof -
  have row: "collect (map (\<lambda>j. convolved (Fin FWHM_mod) (T ! i) (taus ! j)) [0..<length taus])
      = Inl NameError" for i
    by (rule collect_Inl) (simp_all add: assms convolved_raises)
  have "collect (map (\<lambda>i. collect (map (\<lambda>j. convolved (Fin FWHM_mod) (T ! i) (taus ! j))
      [0..<length taus])) [0..<length T]) = Inl NameError"
    by (rule collect_Inl) (simp_all add: assms row)
  then show ?thesis
    using assms(1) by (simp add: genD_def)
qed

lemma genD_zero_width:
  "genD 0 taus T False
     = Inr (map (\<lambda>i. map (\<lambda>j. unconvolved (T ! i) (taus ! j)) [0..<length taus]) [0..<length T])"
  by (simp add: genD_def collect_Inr)

text \<open>
  C1. The claim: whenever the convolved branch is taken, every entry of the generated
  matrix is
  \<open>0.5 * exp (-t/\<tau>) * exp (w\<^sup>2 / (2 * \<tau>\<^sup>2)) / \<tau> * (1 + erf ((t - w\<^sup>2/\<tau>) / (sqrt 2 * w)))\<close>.
  In the source the convolved branch stores no entry: with the width fitted the
  conversion of the width reads the unbound name \<^verbatim>\<open>sqrt\<close>, and with a non-zero stored
  width the first entry reads the unbound name \<^verbatim>\<open>exp\<close>. For a non-empty \<open>taus\<close>, and
  a non-empty \<open>T\<close> when the width is not fitted, the call raises \<^verbatim>\<open>NameError\<close> and no
  matrix is generated.
\<close>

theorem genD_convolved_raises:
  assumes "taus \<noteq> []" and "fit_irf \<or> (FWHM_mod \<noteq> 0 \<and> T \<noteq> [])"
  shows "genD FWHM_mod taus T fit_irf = Inl NameError"
proof (cases fit_irf)
  case True
  then show ?thesis
    using assms(1) by (simp add: genD_fit_irf)
next
  case False
  then show ?thesis
    using assms genD_stored_width [of FWHM_mod T taus] by simp
qed

theorem genD_convolved_raises_witness:
  "genD 2 [2] [2] False = Inl NameError \<and> genD 0 [2, 1] [2] True = Inl NameError"
  using genD_convolved_raises [where taus = "[2]" and fit_irf = False and FWHM_mod = 2 and T = "[2]"]
    genD_convolved_raises [where taus = "[2, 1]" and fit_irf = True and FWHM_mod = 0 and T = "[2]"]
  by simp

text \<open>
  C9. Whenever the stored width \<open>FWHM_mod\<close> is 0, every matrix the generator returns
  has the entries \<^verbatim>\<open>np.exp(-T[i]/taus[j])\<close>, which for a non-zero lifetime is
  \<open>exp (- T[i] / taus[j])\<close>: without width fitting the call returns such a
  \<open>len(T) \<times> len(taus)\<close> matrix, and with width fitting it returns no matrix.
\<close>

theorem genD_zero_stored_width:
  "(\<not> fit_irf \<longrightarrow> (\<exists>D. genD 0 taus T fit_irf = Inr D)) \<and>
   (\<forall>D. genD 0 taus T fit_irf = Inr D \<longrightarrow>
      \<not> fit_irf \<and> is_matrix (length T) (length taus) D \<and>
      (\<forall>i<length T. \<forall>j<length taus.
         D ! i ! j = fexp (Fin (- (T ! i)) / Fin (taus ! j)) \<and>
         (taus ! j \<noteq> 0 \<longrightarrow> D ! i ! j = Fin (exp (- (T ! i) / taus ! j)))))"
proof (cases fit_irf)
  case True
  then show ?thesis
    by (simp add: genD_fit_irf)
next
  case False
  then show ?thesis
    by (simp add: genD_zero_width is_matrix_iff unconvolved_def)
qed

theorem genD_zero_stored_width_witness:
  "\<exists>D. genD 0 [2, 5] [1, 3] False = Inr D \<and> is_matrix 2 2 D \<and> D ! 1 ! 0 = Fin (exp (- 3 / 2))"
proof -
  obtain D where D: "genD 0 [2, 5] [1, 3] False = Inr D"
    using genD_zero_stored_width [of False "[2, 5]" "[1, 3]"] by blast
  then have "is_matrix 2 2 D \<and> D ! 1 ! 0 = Fin (exp (- 3 / 2))"
    using genD_zero_stored_width [of False "[2, 5]" "[1, 3]"] by (simp add: eval_nat_numeral)
  with D show ?thesis
    by blast
qed

text \<open>
  C10. The claim: with \<open>fit_irf\<close> true every entry is computed with the convolved
  closed form, the width being the trailing element of \<open>taus\<close>. In the source a call
  with \<open>fit_irf\<close> true computes no entry: it raises \<^verbatim>\<open>ValueError\<close> at the allocation for
  an empty \<open>taus\<close> and \<^verbatim>\<open>NameError\<close> at the conversion of the trailing width otherwise.
  What holds of the claim: the outcome does not depend on the stored width, and no call
  with \<open>fit_irf\<close> true, a zero trailing width included, reaches the pure-exponential
  branch or returns a matrix.
\<close>

theorem genD_fit_irf_raises:
  "genD FWHM_mod taus T True = (if taus = [] then Inl ValueError else Inl NameError) \<and>
   genD FWHM_mod taus T True = genD 0 taus T True \<and>
   (\<forall>D. genD FWHM_mod taus T True \<noteq> Inr D)"
  by (simp add: genD_fit_irf)

theorem genD_fit_irf_raises_witness:
  "genD 7 [2, 0] [1] True = Inl NameError \<and> genD 7 [2, 0] [1] True = genD 0 [2, 0] [1] True \<and>
   genD 7 [2, 0] [1] True \<noteq> Inr [[unconvolved 1 2]]"
proof -
  note t = genD_fit_irf_raises [of 7 "[2, 0]" "[1]"]
  from t have a: "genD 7 [2, 0] [1] True = Inl NameError"
    by simp
  from t have b: "genD 7 [2, 0] [1] True = genD 0 [2, 0] [1] True"
    by blast
  from t have c: "genD 7 [2, 0] [1] True \<noteq> Inr [[unconvolved 1 2]]"
    by blast
  from a b c show ?thesis
    by blast
qed




section \<open>Back-substitution\<close>

declare spec_entry.simps [simp del]

lemma inner_loop_result:
  assumes "i < length R" "\<forall>k\<in>set ks. k < length (R ! i) \<and> k \<noteq> i" "i < length Z"
  shows "inner_loop R Z i ks (s, DAS) =
     Inr (foldl (\<lambda>acc k. vadd acc (smul (R ! i ! k) (DAS ! k))) s ks,
          if ks = [] then DAS
          else DAS[i := vdiv (vsub (Z ! i) (foldl (\<lambda>acc k. vadd acc (smul (R ! i ! k) (DAS ! k))) s ks))
                          (R ! i ! i)])"
  using assms(2)
proof (induction ks arbitrary: s DAS)
  case Nil
  then show ?case by simp
next
  case (Cons k ks)
  define s1 where "s1 = vadd s (smul (R ! i ! k) (DAS ! k))"
  define DAS1 where "DAS1 = DAS[i := vdiv (vsub (Z ! i) s1) (R ! i ! i)]"
  have ks: "\<forall>k\<in>set ks. k < length (R ! i) \<and> k \<noteq> i" using Cons.prems by simp
  have same: "foldl (\<lambda>acc k. vadd acc (smul (R ! i ! k) (DAS1 ! k))) s1 ks
            = foldl (\<lambda>acc k. vadd acc (smul (R ! i ! k) (DAS ! k))) s1 ks"
    by (rule foldl_cong) (use ks in \<open>auto simp: DAS1_def\<close>)
  have "inner_loop R Z i (k # ks) (s, DAS) = inner_loop R Z i ks (s1, DAS1)"
    using assms(1,3) Cons.prems by (simp add: s1_def DAS1_def Let_def)
  also have "\<dots> = Inr (foldl (\<lambda>acc k. vadd acc (smul (R ! i ! k) (DAS1 ! k))) s1 ks,
          if ks = [] then DAS1
          else DAS1[i := vdiv (vsub (Z ! i) (foldl (\<lambda>acc k. vadd acc (smul (R ! i ! k) (DAS1 ! k))) s1 ks))
                          (R ! i ! i)])"
    by (rule Cons.IH [OF ks])
  finally show ?case
    by (simp add: same s1_def [symmetric]) (simp add: DAS1_def)
qed

lemma foldl_rows:
  fixes s :: "'a::{comm_monoid_add,times} list"
  assumes "length s = N" "\<forall>k\<in>set ks. length (DAS ! k) = N"
  shows "length (foldl (\<lambda>acc k. vadd acc (smul (a k) (DAS ! k))) s ks) = N \<and>
         (\<forall>c<N. foldl (\<lambda>acc k. vadd acc (smul (a k) (DAS ! k))) s ks ! c
                 = s ! c + (\<Sum>k\<leftarrow>ks. a k * DAS ! k ! c))"
  using assms
proof (induction ks arbitrary: s)
  case Nil
  then show ?case by simp
next
  case (Cons k ks)
  let ?s1 = "vadd s (smul (a k) (DAS ! k))"
  have l1: "length ?s1 = N" using Cons.prems by (simp add: vadd_def smul_def)
  have n1: "\<forall>c<N. ?s1 ! c = s ! c + a k * DAS ! k ! c"
    using Cons.prems by (simp add: vadd_def smul_def)
  have "\<forall>k\<in>set ks. length (DAS ! k) = N" using Cons.prems by simp
  from Cons.IH [OF l1 this] n1 show ?case by (simp add: add.assoc)
qed


lemma spec_entry_last:
  "0 < K \<Longrightarrow> spec_entry R Z K (K - Suc 0) c = Z ! (K - Suc 0) ! c / R ! (K - Suc 0) ! (K - Suc 0)"
  by (subst spec_entry.simps) simp

lemma spec_entry_inner:
  "Suc i \<noteq> K \<Longrightarrow> spec_entry R Z K i c =
     (Z ! i ! c - (\<Sum>k\<leftarrow>[Suc i..<K]. R ! i ! k * spec_entry R Z K k c)) / R ! i ! i"
  by (subst spec_entry.simps) simp

lemma outer_loop_result:
  fixes R :: "'a::{comm_monoid_add,minus,times,inverse} matrix"
  assumes R: "is_matrix K K R" and Z: "is_matrix K N Z"
    and D: "is_matrix K N DAS" and n: "n < K"
    and filled: "\<forall>i. n \<le> i \<and> i < K \<longrightarrow> DAS ! i = spec_row R Z K N i"
  shows "outer_loop R Z (rev [0..<n]) DAS = Inr (spec_back_substitution R Z K N)"
  using D n filled
proof (induction n arbitrary: DAS)
  case 0
  have "DAS = spec_back_substitution R Z K N"
    using 0 by (intro nth_equalityI)
      (simp_all add: spec_back_substitution_def spec_row_def is_matrix_def)
  then show ?case by simp
next
  case (Suc n)
  let ?f = "\<lambda>acc k. vadd acc (smul (R ! n ! k) (DAS ! k))"
  let ?s = "foldl ?f (replicate N 0) [Suc n..<K]"
  let ?row = "vdiv (vsub (Z ! n) ?s) (R ! n ! n)"
  have nK: "n < K" "Suc n < K" using Suc.prems by simp_all
  have nc: "ncols DAS = N" using Suc.prems nK by (simp add: ncols_is_matrix)
  have ne: "[Suc n..<K] \<noteq> []" using nK by simp
  have inner: "inner_loop R Z n [Suc n..<K] (replicate N 0, DAS) = Inr (?s, DAS[n := ?row])"
    using inner_loop_result [of n R "[Suc n..<K]" Z "replicate N 0" DAS] R Z nK ne
    by (simp add: is_matrix_iff)
  have rows: "\<forall>k\<in>set [Suc n..<K]. length (DAS ! k) = N"
    using Suc.prems(1) by (simp add: is_matrix_iff)
  have s: "length ?s = N \<and> (\<forall>c<N. ?s ! c = replicate N 0 ! c + (\<Sum>k\<leftarrow>[Suc n..<K]. R ! n ! k * DAS ! k ! c))"
    by (rule foldl_rows [OF _ rows]) simp
  have sc: "?s ! c = (\<Sum>k\<leftarrow>[Suc n..<K]. R ! n ! k * spec_entry R Z K k c)" if "c < N" for c
  proof -
    have "(\<Sum>k\<leftarrow>[Suc n..<K]. R ! n ! k * DAS ! k ! c) = (\<Sum>k\<leftarrow>[Suc n..<K]. R ! n ! k * spec_entry R Z K k c)"
      by (rule arg_cong [where f = sum_list], rule map_cong)
        (use Suc.prems that in \<open>auto simp: spec_row_def\<close>)
    with s that show ?thesis by simp
  qed
  have row: "?row = spec_row R Z K N n"
  proof (rule nth_equalityI)
    show "length ?row = length (spec_row R Z K N n)"
      using s Z nK by (simp add: vdiv_def vsub_def spec_row_def is_matrix_iff)
  next
    fix c assume "c < length ?row"
    then have c: "c < N" using s Z nK by (simp add: vdiv_def vsub_def is_matrix_iff)
    then show "?row ! c = spec_row R Z K N n ! c"
      using s Z nK sc [OF c]
      by (simp add: vdiv_def vsub_def spec_row_def is_matrix_iff spec_entry_inner)
  qed
  have D': "is_matrix K N (DAS[n := spec_row R Z K N n])"
    using Suc.prems nK by (auto simp: is_matrix_iff nth_list_update spec_row_def)
  have filled': "\<forall>i. n \<le> i \<and> i < K \<longrightarrow> DAS[n := spec_row R Z K N n] ! i = spec_row R Z K N i"
    using Suc.prems nK by (auto simp: nth_list_update is_matrix_iff le_Suc_eq)
  have "outer_loop R Z (rev [0..<Suc n]) DAS = outer_loop R Z (rev [0..<n]) (DAS[n := spec_row R Z K N n])"
    using inner nc Suc.prems by (simp add: row is_matrix_iff)
  also have "\<dots> = Inr (spec_back_substitution R Z K N)"
    by (rule Suc.IH [OF D' nK(1) filled'])
  finally show ?case .
qed

lemma back_substitution_result:
  fixes R :: "'a::{comm_monoid_add,minus,times,inverse} matrix"
  assumes "0 < K" "is_matrix K K R" "is_matrix K N Z"
  shows "back_substitution R Z (zeros K N) = Inr (spec_back_substitution R Z K N)"
proof -
  let ?D1 = "(zeros K N)[K - 1 := vdiv (last Z) (last (last R))]"
  have "length (R ! (K - 1)) = K"
    using assms by (simp add: is_matrix_iff)
  then have "R ! (K - 1) \<noteq> []" using assms(1) by auto
  then have ne: "zeros K N \<noteq> []" "Z \<noteq> []" "R \<noteq> []" "last R \<noteq> []"
    using assms by (auto simp: zeros_def is_matrix_iff last_conv_nth)
  have lastrow: "vdiv (last Z) (last (last R)) = spec_row R Z K N (K - 1)"
    using assms ne
    by (intro nth_equalityI)
      (simp_all add: vdiv_def spec_row_def last_conv_nth is_matrix_iff spec_entry_last)
  have D1: "is_matrix K N ?D1"
    using assms by (auto simp: is_matrix_iff zeros_def nth_list_update lastrow spec_row_def)
  have filled: "\<forall>i. K - 1 \<le> i \<and> i < K \<longrightarrow> ?D1 ! i = spec_row R Z K N i"
  proof (intro allI impI)
    fix i assume "K - 1 \<le> i \<and> i < K"
    then have "i = K - 1" by arith
    then show "?D1 ! i = spec_row R Z K N i"
      using assms(1) by (simp add: lastrow zeros_def)
  qed
  have "back_substitution R Z (zeros K N) = outer_loop R Z (rev [0..<K - 1]) ?D1"
    using ne by (simp add: back_substitution_def Let_def zeros_def)
  also have "\<dots> = Inr (spec_back_substitution R Z K N)"
    by (rule outer_loop_result [OF assms(2,3) D1 _ filled]) (use assms in simp)
  finally show ?thesis .
qed

text \<open>
  C3. For every \<open>K \<times> K\<close> array \<open>R\<close> and every \<open>K \<times> N\<close> right-hand side \<open>Z\<close>, \<open>K \<ge> 1\<close>, the
  back-substitution loop of the source, started on the zero array, returns the array that
  textbook back-substitution defines. Neither the triangular shape of \<open>R\<close> nor a non-zero
  diagonal is needed for the two to agree, and they agree in every arithmetic that adds
  commutatively and associatively with unit 0, in particular on floats with infinities
  and NaN and on the reals.
\<close>

theorem back_substitution_refines_spec:
  fixes R :: "'a::{comm_monoid_add,minus,times,inverse} matrix"
  assumes "0 < K" "is_matrix K K R" "is_matrix K N Z"
  shows "back_substitution R Z (zeros K N) = Inr (spec_back_substitution R Z K N)"
  using assms by (rule back_substitution_result)

theorem back_substitution_refines_spec_witness:
  "is_matrix 2 2 [[Fin 2, Fin 1], [Fin 0, Fin 4]] \<and> is_matrix 2 1 [[Fin 5], [Fin 8]] \<and>
   back_substitution [[Fin 2, Fin 1], [Fin 0, Fin 4]] [[Fin 5], [Fin 8]] (zeros 2 1)
     = Inr [[Fin (3 / 2)], [Fin 2]] \<and>
   spec_back_substitution [[Fin 2, Fin 1], [Fin 0, Fin 4]] [[Fin 5], [Fin 8]] 2 1
     = [[Fin (3 / 2)], [Fin 2]]"
proof -
  let ?R = "[[Fin 2, Fin 1], [Fin 0, Fin 4]]"
  let ?Z = "[[Fin 5], [Fin 8]]"
  have R: "is_matrix 2 2 ?R" and Z: "is_matrix 2 1 ?Z"
    by (simp_all add: is_matrix_def)
  have u: "[Suc 0..<2] = [Suc 0]" "[0..<2] = [0, Suc 0]"
    by (simp_all add: numeral_2_eq_2)
  have e1: "spec_entry ?R ?Z 2 (Suc 0) 0 = Fin 2"
    by (subst spec_entry.simps) simp
  have e0: "spec_entry ?R ?Z 2 0 0 = Fin (3 / 2)"
    by (subst spec_entry.simps) (simp add: e1 u)
  have spec: "spec_back_substitution ?R ?Z 2 1 = [[Fin (3 / 2)], [Fin 2]]"
    by (simp add: spec_back_substitution_def spec_row_def e0 e1 u)
  show ?thesis
    using back_substitution_refines_spec [of 2 ?R 1 ?Z] R Z spec by simp
qed

section \<open>The linear solver\<close>

lemma is_matrix_QtY_of: "is_matrix K N (QtY_of Q Y K N)"
  by (simp add: QtY_of_def is_matrix_iff)

lemma dot_transpose:
  fixes Q :: "'a::{comm_monoid_add,times} matrix"
  assumes Q: "is_matrix M' K Q" and Y: "is_matrix M' N Y" and M': "0 < M'"
  shows "dot (transpose_np Q) Y = Inr (QtY_of Q Y K N)"
proof -
  have nc: "ncols Q = K" "ncols Y = N"
    using assms by (simp_all add: ncols_is_matrix)
  have len: "length Q = M'" "length Y = M'"
    using Q Y by (simp_all add: is_matrix_iff)
  have chk: "list_all (\<lambda>r. length r = length Y) (transpose_np Q)"
    by (simp add: transpose_np_def list_all_iff len)
  have "map (\<lambda>r. map (\<lambda>n. \<Sum>k\<leftarrow>[0..<length Y]. r ! k * Y ! k ! n) [0..<ncols Y]) (transpose_np Q)
        = QtY_of Q Y K N"
  proof -
    have "(\<Sum>k\<leftarrow>[0..<M']. map (\<lambda>r. r ! l) Q ! k * Y ! k ! n) = (\<Sum>i\<leftarrow>[0..<M']. Q ! i ! l * Y ! i ! n)"
      for l n
      by (rule arg_cong [where f = sum_list], rule map_cong) (simp_all add: len)
    then show ?thesis
      by (simp add: QtY_of_def transpose_np_def nc len)
  qed
  with chk show ?thesis by (simp add: dot_def)
qed

lemma is_matrix_append: "is_matrix m n A \<Longrightarrow> is_matrix k n B \<Longrightarrow> is_matrix (m + k) n (A @ B)"
  by (simp add: is_matrix_def)

lemma is_matrix_zeros: "is_matrix m n (zeros m n)"
  by (simp add: zeros_def is_matrix_def list_all_iff)

lemma is_matrix_scale_identity: "is_matrix n n (scale a (identity n))"
  by (simp add: scale_def identity_def is_matrix_iff)

lemma getDAS_result:
  assumes D: "is_matrix M K D" and Y: "is_matrix M N Y" and M: "0 < M" and K: "0 < K"
    and qr: "qr (D_aug_of alpha D) = (Q, R)"
    and Q: "is_matrix (length (D_aug_of alpha D)) K Q" and R: "is_matrix K K R"
  shows "getDAS qr D Y alpha = Inr (spec_back_substitution R (QtY_of Q (Y_aug_of alpha K Y) K N) K N)"
proof -
  have ne: "D \<noteq> []" "Y \<noteq> []" using D Y M by (auto simp: is_matrix_iff)
  have d0: "length (D ! 0) = K" and y0: "length (Y ! 0) = N"
    using D Y M by (simp_all add: is_matrix_iff)
  have Da: "is_matrix (length (D_aug_of alpha D)) K (D_aug_of alpha D)"
    using D by (auto simp: D_aug_of_def d0 is_matrix_iff intro: is_matrix_append is_matrix_scale_identity
        simp: nth_append scale_def identity_def)
  have Dal: "length (D_aug_of alpha D) = (if alpha \<noteq> 0 then M + K else M)"
    using D by (simp add: D_aug_of_def d0 is_matrix_iff scale_def identity_def)
  have da0: "length (D_aug_of alpha D ! 0) = K"
    using Da Dal M by (simp add: is_matrix_iff)
  have Ya: "is_matrix (length (D_aug_of alpha D)) N (Y_aug_of alpha K Y)"
    using Y Dal by (auto simp: Y_aug_of_def y0 intro: is_matrix_append is_matrix_zeros)
  have ya0: "length (Y_aug_of alpha K Y ! 0) = N"
    using Ya Dal M by (simp add: is_matrix_iff)
  have pos: "0 < length (D_aug_of alpha D)" using Dal M by simp
  have dt: "dot (transpose_np Q) (Y_aug_of alpha K Y) = Inr (QtY_of Q (Y_aug_of alpha K Y) K N)"
    by (rule dot_transpose [OF Q Ya pos])
  have bs: "back_substitution R (QtY_of Q (Y_aug_of alpha K Y) K N) (zeros K N)
      = Inr (spec_back_substitution R (QtY_of Q (Y_aug_of alpha K Y) K N) K N)"
    by (rule back_substitution_result [OF K R is_matrix_QtY_of])
  have "getDAS qr D Y alpha =
      (let D_aug = D_aug_of alpha D; Y_aug = Y_aug_of alpha (length (D_aug ! 0)) Y;
           (Q, R) = qr D_aug; Qt = transpose_np Q;
           DAS = zeros (length (D_aug ! 0)) (length (Y_aug ! 0))
       in case dot Qt Y_aug of Inl e \<Rightarrow> Inl e | Inr QtY \<Rightarrow> back_substitution R QtY DAS)"
    using ne by (simp add: getDAS_def D_aug_of_def Y_aug_of_def Let_def)
  also have "\<dots> = back_substitution R (QtY_of Q (Y_aug_of alpha K Y) K N) (zeros K N)"
    by (simp add: Let_def qr da0 ya0 dt)
  finally show ?thesis using bs by simp
qed

lemma div_zero_not_finite: "\<not> finite_val (x / Fin 0)"
  by (cases x) (simp_all add: fval_arith_simps signed_inf_def finite_val_def)

lemma upt_2: "[0..<2] = [0, Suc 0]" "[Suc 0..<2] = [Suc 0]"
  by (simp_all add: numeral_2_eq_2)

lemma spec_entry_quotient: "\<exists>x. spec_entry R Z K i c = x / R ! i ! i"
  by (subst spec_entry.simps) auto

lemma is_matrix_spec_back_substitution: "is_matrix K N (spec_back_substitution R Z K N)"
  by (simp add: spec_back_substitution_def spec_row_def is_matrix_iff)

lemma spec_back_substitution_nth:
  "i < K \<Longrightarrow> c < N \<Longrightarrow> spec_back_substitution R Z K N ! i ! c = spec_entry R Z K i c"
  by (simp add: spec_back_substitution_def spec_row_def)

text \<open>
  C6, as stated: with \<open>alpha = 0\<close> and a rank-deficient \<open>D\<close> the solver fails with a
  SingularMatrixError and never lets a NaN into the amplitudes. The source has no such
  check. For a \<open>D\<close> with two equal columns, whose QR factors have the diagonal \<open>(5, 0)\<close>,
  it divides by the zero and returns amplitudes that are all NaN.
\<close>

theorem getDAS_duplicate_columns_counterexample:
  "getDAS (\<lambda>A. ([[Fin (3/5), Fin (- 4/5)], [Fin (4/5), Fin (3/5)]], [[Fin 5, Fin 5], [Fin 0, Fin 0]]))
   [[Fin 3, Fin 3], [Fin 4, Fin 4]] [[Fin 3], [Fin 4]] 0 = Inr [[NaN], [NaN]]"
proof -
  let ?Q = "[[Fin (3/5), Fin (- 4/5)], [Fin (4/5), Fin (3/5)]]"
  let ?R = "[[Fin 5, Fin 5], [Fin 0, Fin 0]]"
  let ?D = "[[Fin 3, Fin 3], [Fin 4, Fin 4]]"
  let ?Y = "[[Fin 3], [Fin 4]]"
  let ?Z = "[[Fin 5], [Fin 0]]"
  have "getDAS (\<lambda>A. (?Q, ?R)) ?D ?Y 0
      = Inr (spec_back_substitution ?R (QtY_of ?Q (Y_aug_of 0 2 ?Y) 2 1) 2 1)"
    by (rule getDAS_result [where M = 2]) (simp_all add: is_matrix_def D_aug_of_def)
  moreover have "QtY_of ?Q (Y_aug_of 0 2 ?Y) 2 1 = ?Z"
    by (simp add: QtY_of_def Y_aug_of_def upt_2)
  moreover have e1: "spec_entry ?R ?Z 2 (Suc 0) 0 = NaN"
    by (subst spec_entry.simps) (simp add: Fin_divide_zero signed_inf_def)
  moreover have "spec_entry ?R ?Z 2 0 0 = NaN"
    by (subst spec_entry.simps) (simp add: e1 upt_2 fval_arith_simps)
  ultimately show ?thesis
    by (simp add: spec_back_substitution_def spec_row_def upt_2)
qed

text \<open>
  C6, amended: with \<open>alpha = 0\<close> and a zero diagonal entry \<open>R[i,i]\<close> the solver raises no
  error; it returns a \<open>K \<times> N\<close> amplitude array whose row \<open>i\<close> holds only infinities and
  NaN.
\<close>

theorem getDAS_zero_diagonal:
  assumes "is_matrix M K D" "is_matrix M N Y" "0 < M" "0 < K"
    and "qr D = (Q, R)" "is_matrix M K Q" "is_matrix K K R"
    and "i < K" "R ! i ! i = Fin 0"
  shows "\<exists>X. getDAS qr D Y 0 = Inr X \<and> is_matrix K N X \<and> (\<forall>n<N. \<not> finite_val (X ! i ! n))"
proof -
  let ?Z = "QtY_of Q (Y_aug_of 0 K Y) K N"
  let ?X = "spec_back_substitution R ?Z K N"
  have D0: "D_aug_of 0 D = D"
    by (simp add: D_aug_of_def)
  have len: "length D = M"
    using assms(1) by (simp add: is_matrix_iff)
  have "getDAS qr D Y 0 = Inr ?X"
    by (rule getDAS_result [OF assms(1,2,3,4)]) (simp_all add: D0 len assms)
  moreover have "\<not> finite_val (?X ! i ! n)" if "n < N" for n
  proof -
    obtain x where "spec_entry R ?Z K i n = x / R ! i ! i"
      using spec_entry_quotient by blast
    then show ?thesis
      using that assms(8,9) by (simp add: spec_back_substitution_nth div_zero_not_finite)
  qed
  ultimately show ?thesis
    using is_matrix_spec_back_substitution by blast
qed

theorem getDAS_zero_diagonal_witness:
  "\<exists>X. getDAS (\<lambda>A. ([[Fin 1]], [[Fin 0]])) [[Fin 0]] [[Fin 1]] 0 = Inr X \<and> is_matrix 1 1 X \<and>
       \<not> finite_val (X ! 0 ! 0)"
  using getDAS_zero_diagonal [of 1 1 "[[Fin 0]]" 1 "[[Fin 1]]" "\<lambda>A. ([[Fin 1]], [[Fin 0]])"
      "[[Fin 1]]" "[[Fin 0]]" 0]
  by (simp add: is_matrix_def)

section \<open>Column selection\<close>

lemma column_in_range:
  assumes "is_matrix M C A" "0 < M" "1 \<le> n" "n \<le> int C"
  shows "column A (n - 1) = Inr (map (\<lambda>r. r ! nat (n - 1)) A)"
  using assms by (simp add: column_def Let_def ncols_is_matrix)

lemma assign_column_full:
  assumes "length v = length A"
  shows "assign_column A j v = Inr (map2 (\<lambda>r x. r[j := x]) A v)"
  using assms by (simp add: assign_column_def)

lemma fill_columns_result:
  assumes W: "is_matrix M C wLSV" and M: "0 < M"
    and F: "is_matrix M L wLSV_fit"
    and ns: "\<forall>n\<in>set ns. 1 \<le> n \<and> n \<le> int C"
    and j: "j + length ns \<le> L"
  shows "\<exists>F. fill_columns wLSV ns j wLSV_fit = Inr F \<and> is_matrix M L F \<and>
           (\<forall>i<M. \<forall>c<L. F ! i ! c =
              (if j \<le> c \<and> c < j + length ns then wLSV ! i ! nat (ns ! (c - j) - 1)
               else wLSV_fit ! i ! c))"
  using F ns j
proof (induction ns arbitrary: j wLSV_fit)
  case Nil
  then show ?case by simp
next
  case (Cons n ns)
  let ?v = "map (\<lambda>r. r ! nat (n - 1)) wLSV"
  let ?F1 = "map2 (\<lambda>r x. r[j := x]) wLSV_fit ?v"
  have n: "1 \<le> n" "n \<le> int C" using Cons.prems(2) by simp_all
  have col: "column wLSV (n - 1) = Inr ?v"
    by (rule column_in_range [OF W M n])
  have len: "length ?v = length wLSV_fit"
    using W Cons.prems(1) by (simp add: is_matrix_iff)
  have asg: "assign_column wLSV_fit j ?v = Inr ?F1"
    by (rule assign_column_full [OF len])
  have F1: "is_matrix M L ?F1"
    using W Cons.prems(1) by (simp add: is_matrix_iff)
  have F1n: "?F1 ! i ! c = (if c = j then wLSV ! i ! nat (n - 1) else wLSV_fit ! i ! c)"
    if "i < M" "c < L" for i c
    using that W Cons.prems(1) by (simp add: is_matrix_iff nth_list_update)
  have ns': "\<forall>n\<in>set ns. 1 \<le> n \<and> n \<le> int C" using Cons.prems(2) by simp
  have j': "Suc j + length ns \<le> L" using Cons.prems(3) by simp
  obtain F where F: "fill_columns wLSV ns (Suc j) ?F1 = Inr F" "is_matrix M L F"
    "\<forall>i<M. \<forall>c<L. F ! i ! c =
        (if Suc j \<le> c \<and> c < Suc j + length ns then wLSV ! i ! nat (ns ! (c - Suc j) - 1)
         else ?F1 ! i ! c)"
    using Cons.IH [OF F1 ns' j'] by blast
  have "fill_columns wLSV (n # ns) j wLSV_fit = Inr F"
    using col asg F(1) by simp
  moreover have "F ! i ! c =
      (if j \<le> c \<and> c < j + length (n # ns) then wLSV ! i ! nat ((n # ns) ! (c - j) - 1)
       else wLSV_fit ! i ! c)" if "i < M" "c < L" for i c
  proof (cases "c = j")
    case True
    then show ?thesis using F(3) F1n that by simp
  next
    case False
    show ?thesis
    proof (cases "Suc j \<le> c \<and> c < Suc j + length ns")
      case True
      then have "(n # ns) ! (c - j) = ns ! (c - Suc j)"
        by (simp add: nth_Cons')
      with True show ?thesis using F(3) that by simp
    next
      case out: False
      then show ?thesis using F(3) F1n that False by auto
    qed
  qed
  ultimately show ?case using F(2) by blast
qed

lemma select_columns_unique:
  assumes "is_matrix M L F" "is_matrix M C wLSV" "L = length idx"
    and "\<forall>i<M. \<forall>c<L. F ! i ! c = wLSV ! i ! nat (idx ! c - 1)"
  shows "F = map (\<lambda>r. map (\<lambda>n. r ! nat (n - 1)) idx) wLSV"
proof (rule nth_equalityI)
  show "length F = length (map (\<lambda>r. map (\<lambda>n. r ! nat (n - 1)) idx) wLSV)"
    using assms by (simp add: is_matrix_iff)
next
  fix i assume "i < length F"
  then have i: "i < M" using assms(1) by (simp add: is_matrix_iff)
  show "F ! i = map (\<lambda>r. map (\<lambda>n. r ! nat (n - 1)) idx) wLSV ! i"
    using assms i by (intro nth_equalityI) (simp_all add: is_matrix_iff)
qed

text \<open>
  C4. A selector without any token (the empty string in particular) selects the first 3
  columns of the basis and reports \<open>[3]\<close>; a selector whose only token reads as the integer
  \<open>n \<ge> 0\<close> selects the first \<open>n\<close> columns and reports \<open>[n]\<close>; a selector with two or more
  integers, each between 1 and the number of columns, selects exactly those 1-based
  columns in the given order, repeated or unsorted as they come, and reports them.
\<close>

theorem get_wLSVs_for_fit_selection:
  fixes wLSV :: "real matrix"
  shows
    "(str_split sel = [] \<longrightarrow>
        get_wLSVs_for_fit wLSV T sel B = Inr ([3], map (take 3) wLSV)) \<and>
     (str_split sel = [tok] \<and> str_to_int tok = Inr n \<and> 0 \<le> n \<longrightarrow>
        get_wLSVs_for_fit wLSV T sel B = Inr ([n], map (take (nat n)) wLSV)) \<and>
     (map_int (str_split sel) = Inr idx \<and> 2 \<le> length idx \<and>
      (\<forall>n\<in>set idx. 1 \<le> n \<and> n \<le> int C) \<and> is_matrix (length T) C wLSV \<and> 0 < length T \<longrightarrow>
        get_wLSVs_for_fit wLSV T sel B =
          Inr (idx, map (\<lambda>r. map (\<lambda>n. r ! nat (n - 1)) idx) wLSV))"
proof (intro conjI impI)
  assume "str_split sel = []"
  then show "get_wLSVs_for_fit wLSV T sel B = Inr ([3], map (take 3) wLSV)"
    by (simp add: get_wLSVs_for_fit_def slice_columns_def)
next
  assume "str_split sel = [tok] \<and> str_to_int tok = Inr n \<and> 0 \<le> n"
  then show "get_wLSVs_for_fit wLSV T sel B = Inr ([n], map (take (nat n)) wLSV)"
    by (simp add: get_wLSVs_for_fit_def slice_columns_def)
next
  assume a: "map_int (str_split sel) = Inr idx \<and> 2 \<le> length idx \<and>
      (\<forall>n\<in>set idx. 1 \<le> n \<and> n \<le> int C) \<and> is_matrix (length T) C wLSV \<and> 0 < length T"
  let ?M = "length T" and ?L = "length idx"
  have toks: "str_split sel \<noteq> []"
    using a by (cases "str_split sel") auto
  have Z: "is_matrix ?M ?L (zeros ?M ?L :: real matrix)"
    by (rule is_matrix_zeros)
  obtain F where F: "fill_columns wLSV idx 0 (zeros ?M ?L) = Inr F" "is_matrix ?M ?L F"
    "\<forall>i<?M. \<forall>c<?L. F ! i ! c =
        (if 0 \<le> c \<and> c < 0 + length idx then wLSV ! i ! nat (idx ! (c - 0) - 1)
         else zeros ?M ?L ! i ! c)"
    using fill_columns_result [of ?M C wLSV ?L "zeros ?M ?L" idx 0] a Z by auto
  have "F = map (\<lambda>r. map (\<lambda>n. r ! nat (n - 1)) idx) wLSV"
    by (rule select_columns_unique [OF F(2) _ refl]) (use a F(3) in auto)
  then show "get_wLSVs_for_fit wLSV T sel B =
          Inr (idx, map (\<lambda>r. map (\<lambda>n. r ! nat (n - 1)) idx) wLSV)"
    using a toks F(1) by (simp add: get_wLSVs_for_fit_def)
qed

theorem get_wLSVs_for_fit_selection_witness:
  "get_wLSVs_for_fit [[1, 2, 3, 4, 5], [6, 7, 8, 9, 10]] [0, 1] '''' None
     = Inr ([3], [[1, 2, 3], [6, 7, 8]]) \<and>
   get_wLSVs_for_fit [[1, 2, 3, 4, 5], [6, 7, 8, 9, 10]] [0, 1] ''4'' None
     = Inr ([4], [[1, 2, 3, 4], [6, 7, 8, 9]]) \<and>
   get_wLSVs_for_fit [[1, 2, 3, 4, 5], [6, 7, 8, 9, 10]] [0, 1] ''2 4'' None
     = Inr ([2, 4], [[2, 4], [7, 9]])"
proof -
  let ?W = "[[1, 2, 3, 4, 5], [6, 7, 8, 9, 10 :: real]]"
  let ?T = "[0, 1 :: real]"
  have s0: "str_split '''' = []" and s1: "str_split ''4'' = [''4'']"
    and s2: "str_split ''2 4'' = [''2'', ''4'']"
    by (simp_all add: str_split_def is_space_def)
  have i: "str_to_int ''4'' = Inr 4" "str_to_int ''2'' = Inr 2"
    by (simp_all add: str_to_int_def is_digit_def digits_value_def)
  have W: "is_matrix (length ?T) 5 ?W"
    by (simp add: is_matrix_def)
  have "get_wLSVs_for_fit ?W ?T '''' None = Inr ([3], map (take 3) ?W)"
    using get_wLSVs_for_fit_selection [of "''''" ?W ?T None] s0 by simp
  moreover have "get_wLSVs_for_fit ?W ?T ''4'' None = Inr ([4], map (take (nat 4)) ?W)"
    using get_wLSVs_for_fit_selection [of "''4''" ?W ?T None "''4''" 4] s1 i by simp
  moreover have "get_wLSVs_for_fit ?W ?T ''2 4'' None
      = Inr ([2, 4], map (\<lambda>r. map (\<lambda>n. r ! nat (n - 1)) [2, 4]) ?W)"
    using get_wLSVs_for_fit_selection [of "''2 4''" ?W ?T None _ _ "[2, 4]" 5] s2 i W by simp
  ultimately show ?thesis
    by (simp add: eval_nat_numeral)
qed

section \<open>The solver computes the ridge minimiser\<close>

lemma least_squares_via_qr:
  fixes A Q R :: "nat \<Rightarrow> nat \<Rightarrow> real" and b x y :: "nat \<Rightarrow> real"
  assumes QR: "\<And>i j. i < m \<Longrightarrow> j < k \<Longrightarrow> A i j = (\<Sum>l<k. Q i l * R l j)"
    and orth: "\<And>l l'. l < k \<Longrightarrow> l' < k \<Longrightarrow> (\<Sum>i<m. Q i l * Q i l') = (if l = l' then 1 else 0)"
    and sol: "\<And>l. l < k \<Longrightarrow> (\<Sum>j<k. R l j * x j) = (\<Sum>i<m. Q i l * b i)"
  shows "(\<Sum>i<m. ((\<Sum>j<k. A i j * x j) - b i)\<^sup>2) \<le> (\<Sum>i<m. ((\<Sum>j<k. A i j * y j) - b i)\<^sup>2)"
proof -
  define c where "c l = (\<Sum>i<m. Q i l * b i)" for l
  define r where "r i = (\<Sum>j<k. A i j * x j) - b i" for i
  define e where "e j = y j - x j" for j
  define u where "u i = (\<Sum>j<k. A i j * e j)" for i
  have Ax: "(\<Sum>j<k. A i j * x j) = (\<Sum>l<k. Q i l * c l)" if "i < m" for i
  proof -
    have "(\<Sum>j<k. A i j * x j) = (\<Sum>j<k. \<Sum>l<k. Q i l * (R l j * x j))"
      using that by (intro sum.cong refl) (simp add: QR sum_distrib_right mult.assoc)
    also have "\<dots> = (\<Sum>l<k. \<Sum>j<k. Q i l * (R l j * x j))"
      by (rule sum.swap)
    also have "\<dots> = (\<Sum>l<k. Q i l * (\<Sum>j<k. R l j * x j))"
      by (simp add: sum_distrib_left)
    also have "\<dots> = (\<Sum>l<k. Q i l * c l)"
      by (intro sum.cong refl) (simp add: sol c_def)
    finally show ?thesis .
  qed
  have Qr: "(\<Sum>i<m. Q i l * r i) = 0" if "l < k" for l
  proof -
    have "Q i l * r i = (\<Sum>l'<k. c l' * (Q i l * Q i l')) - Q i l * b i" if "i < m" for i
    proof -
      have "r i = (\<Sum>l'<k. Q i l' * c l') - b i"
        using that by (simp add: r_def Ax)
      then show ?thesis
        by (simp add: right_diff_distrib sum_distrib_left mult_ac)
    qed
    then have "(\<Sum>i<m. Q i l * r i) = (\<Sum>i<m. (\<Sum>l'<k. c l' * (Q i l * Q i l')) - Q i l * b i)"
      by (intro sum.cong refl) simp
    also have "\<dots> = (\<Sum>i<m. \<Sum>l'<k. c l' * (Q i l * Q i l')) - c l"
      by (simp add: sum_subtractf c_def)
    also have "(\<Sum>i<m. \<Sum>l'<k. c l' * (Q i l * Q i l')) = (\<Sum>l'<k. \<Sum>i<m. c l' * (Q i l * Q i l'))"
      by (rule sum.swap)
    also have "\<dots> = (\<Sum>l'<k. c l' * (\<Sum>i<m. Q i l * Q i l'))"
      by (simp add: sum_distrib_left)
    also have "\<dots> = (\<Sum>l'<k. c l' * (if l = l' then 1 else 0))"
      using that by (intro sum.cong refl) (simp add: orth)
    also have "\<dots> = (\<Sum>l'<k. if l = l' then c l' else 0)"
      by (intro sum.cong refl) simp
    also have "\<dots> = c l"
      using that by (simp add: sum.delta')
    finally show ?thesis by simp
  qed
  have Ar: "(\<Sum>i<m. A i j * r i) = 0" if "j < k" for j
  proof -
    have "(\<Sum>i<m. A i j * r i) = (\<Sum>i<m. \<Sum>l<k. Q i l * R l j * r i)"
      using that by (intro sum.cong refl) (simp add: QR sum_distrib_right)
    also have "\<dots> = (\<Sum>i<m. \<Sum>l<k. R l j * (Q i l * r i))"
      by (intro sum.cong refl) (simp add: mult_ac)
    also have "\<dots> = (\<Sum>l<k. \<Sum>i<m. R l j * (Q i l * r i))"
      by (rule sum.swap)
    also have "\<dots> = (\<Sum>l<k. R l j * (\<Sum>i<m. Q i l * r i))"
      by (simp add: sum_distrib_left)
    also have "\<dots> = 0"
      by (simp add: Qr)
    finally show ?thesis .
  qed
  have cross: "(\<Sum>i<m. r i * u i) = 0"
  proof -
    have "(\<Sum>i<m. r i * u i) = (\<Sum>i<m. \<Sum>j<k. r i * (A i j * e j))"
      by (intro sum.cong refl) (simp add: u_def sum_distrib_left)
    also have "\<dots> = (\<Sum>i<m. \<Sum>j<k. e j * (A i j * r i))"
      by (intro sum.cong refl) (simp add: mult_ac)
    also have "\<dots> = (\<Sum>j<k. \<Sum>i<m. e j * (A i j * r i))"
      by (rule sum.swap)
    also have "\<dots> = (\<Sum>j<k. e j * (\<Sum>i<m. A i j * r i))"
      by (simp add: sum_distrib_left)
    also have "\<dots> = 0"
      by (simp add: Ar)
    finally show ?thesis .
  qed
  have split: "(\<Sum>j<k. A i j * y j) - b i = r i + u i" for i
    by (simp add: r_def u_def e_def right_diff_distrib sum_subtractf)
  have "(\<Sum>i<m. ((\<Sum>j<k. A i j * y j) - b i)\<^sup>2) = (\<Sum>i<m. (r i)\<^sup>2 + (u i)\<^sup>2 + 2 * (r i * u i))"
    by (intro sum.cong refl) (simp add: split power2_sum)
  also have "\<dots> = (\<Sum>i<m. (r i)\<^sup>2) + (\<Sum>i<m. (u i)\<^sup>2) + 2 * (\<Sum>i<m. r i * u i)"
    by (simp add: sum.distrib sum_distrib_left)
  also have "\<dots> = (\<Sum>i<m. (r i)\<^sup>2) + (\<Sum>i<m. (u i)\<^sup>2)"
    by (simp add: cross)
  finally have "(\<Sum>i<m. (r i)\<^sup>2) \<le> (\<Sum>i<m. ((\<Sum>j<k. A i j * y j) - b i)\<^sup>2)"
    by (simp add: sum_nonneg)
  then show ?thesis by (simp add: r_def)
qed

lemma lift_nth: "i < length A \<Longrightarrow> j < length (A ! i) \<Longrightarrow> lift A ! i ! j = Fin (A ! i ! j)"
  by (simp add: lift_def)

lemma is_matrix_lift: "is_matrix m n (lift A) \<longleftrightarrow> is_matrix m n A"
  by (simp add: lift_def is_matrix_def list_all_iff)

lemma sum_list_Fin: "(\<Sum>x\<leftarrow>xs. Fin (f x)) = Fin (\<Sum>x\<leftarrow>xs. f x)"
  by (induction xs) (simp_all add: zero_fval_def)

lemma spec_entry_lift:
  assumes R: "is_matrix K K R" and Z: "is_matrix K N Z" and c: "c < N"
    and nz: "\<forall>i<K. R ! i ! i \<noteq> 0"
  shows "i < K \<Longrightarrow> spec_entry (lift R) (lift Z) K i c = Fin (spec_entry R Z K i c)"
proof (induction "K - i" arbitrary: i rule: less_induct)
  case less
  have i: "i < K" by fact
  have Rii: "lift R ! i ! i = Fin (R ! i ! i)" and Zic: "lift Z ! i ! c = Fin (Z ! i ! c)"
    using R Z i c by (simp_all add: lift_nth is_matrix_iff)
  have nzi: "R ! i ! i \<noteq> 0" using nz i by simp
  show ?case
  proof (cases "Suc i = K")
    case True
    then show ?thesis
      by (subst spec_entry.simps, subst (2) spec_entry.simps) (simp add: Rii Zic nzi)
  next
    case False
    have "(\<Sum>k\<leftarrow>[Suc i..<K]. lift R ! i ! k * spec_entry (lift R) (lift Z) K k c)
        = (\<Sum>k\<leftarrow>[Suc i..<K]. Fin (R ! i ! k * spec_entry R Z K k c))"
    proof (rule arg_cong [where f = sum_list], rule map_cong [OF refl])
      fix k assume "k \<in> set [Suc i..<K]"
      then have k: "i < k" "k < K" by simp_all
      then have "spec_entry (lift R) (lift Z) K k c = Fin (spec_entry R Z K k c)"
        using less.hyps [of k] i by simp
      moreover have "lift R ! i ! k = Fin (R ! i ! k)"
        using R i k by (simp add: lift_nth is_matrix_iff)
      ultimately show "lift R ! i ! k * spec_entry (lift R) (lift Z) K k c
          = Fin (R ! i ! k * spec_entry R Z K k c)"
        by simp
    qed
    then show ?thesis
      using False
      by (subst spec_entry.simps, subst (2) spec_entry.simps) (simp add: Rii Zic nzi sum_list_Fin)
  qed
qed

lemma spec_back_substitution_lift:
  assumes "is_matrix K K R" "is_matrix K N Z" "\<forall>i<K. R ! i ! i \<noteq> 0"
  shows "spec_back_substitution (lift R) (lift Z) K N = lift (spec_back_substitution R Z K N)"
  using spec_entry_lift [OF assms(1,2) _ assms(3)]
  by (simp add: spec_back_substitution_def spec_row_def lift_def)

lemma sum_list_upt_sum: "(\<Sum>k\<leftarrow>[m..<n]. f k) = sum f {m..<n}"
  by (simp add: interv_sum_list_conv_sum_set_nat)

lemma back_substitution_solves:
  fixes R :: "real matrix"
  assumes tri: "\<forall>i<K. \<forall>j<i. R ! i ! j = 0" and nz: "\<forall>i<K. R ! i ! i \<noteq> 0"
    and i: "i < K"
  shows "(\<Sum>k<K. R ! i ! k * spec_entry R Z K k c) = Z ! i ! c"
proof -
  let ?x = "\<lambda>k. spec_entry R Z K k c"
  have "(\<Sum>k = 0..<K. R ! i ! k * ?x k)
      = (\<Sum>k = 0..<i. R ! i ! k * ?x k) + (\<Sum>k = i..<K. R ! i ! k * ?x k)"
    using i by (simp add: sum.atLeastLessThan_concat)
  also have "(\<Sum>k = i..<K. R ! i ! k * ?x k)
      = R ! i ! i * ?x i + (\<Sum>k = Suc i..<K. R ! i ! k * ?x k)"
    using i by (simp add: sum.atLeast_Suc_lessThan)
  finally have "(\<Sum>k<K. R ! i ! k * ?x k)
      = (\<Sum>k<i. R ! i ! k * ?x k) + R ! i ! i * ?x i + (\<Sum>k = Suc i..<K. R ! i ! k * ?x k)"
    by (simp add: atLeast0LessThan)
  moreover have "(\<Sum>k<i. R ! i ! k * ?x k) = 0"
    using tri i by simp
  moreover have "R ! i ! i * ?x i = Z ! i ! c - (\<Sum>k = Suc i..<K. R ! i ! k * ?x k)"
  proof (cases "Suc i = K")
    case True
    then show ?thesis
      using nz i by (subst spec_entry.simps) simp
  next
    case False
    then show ?thesis
      using nz i by (subst spec_entry.simps) (simp add: sum_list_upt_sum)
  qed
  ultimately show ?thesis by simp
qed

lemma sum_lessThan_add:
  fixes f :: "nat \<Rightarrow> real"
  shows "sum f {..<m + k} = sum f {..<m} + (\<Sum>i<k. f (m + i))"
  by (induction k) (simp_all add: add.assoc)

lemma augmented_column_cost:
  fixes D :: "nat \<Rightarrow> nat \<Rightarrow> real"
  assumes a: "0 \<le> alpha"
    and top: "\<And>i j. i < M \<Longrightarrow> A i j = D i j"
    and bot: "\<And>i j. i < K \<Longrightarrow> j < K \<Longrightarrow> A (M + i) j = sqrt alpha * (if i = j then 1 else 0)"
    and btop: "\<And>i. i < M \<Longrightarrow> b i = y i" and bbot: "\<And>i. i < K \<Longrightarrow> b (M + i) = 0"
  shows "(\<Sum>i<M + K. ((\<Sum>j<K. A i j * x j) - b i)\<^sup>2)
       = (\<Sum>i<M. ((\<Sum>j<K. D i j * x j) - y i)\<^sup>2) + alpha * (\<Sum>k<K. (x k)\<^sup>2)"
proof -
  have "(\<Sum>j<K. A (M + i) j * x j) = sqrt alpha * x i" if "i < K" for i
  proof -
    have "(\<Sum>j<K. A (M + i) j * x j) = (\<Sum>j<K. if i = j then sqrt alpha * x j else 0)"
      using that by (intro sum.cong refl) (simp add: bot)
    also have "\<dots> = sqrt alpha * x i"
      using that by (simp add: sum.delta')
    finally show ?thesis .
  qed
  then have "(\<Sum>i<K. ((\<Sum>j<K. A (M + i) j * x j) - b (M + i))\<^sup>2) = (\<Sum>i<K. alpha * (x i)\<^sup>2)"
    using a by (intro sum.cong refl) (simp add: bbot power_mult_distrib)
  moreover have "(\<Sum>i<M. ((\<Sum>j<K. A i j * x j) - b i)\<^sup>2) = (\<Sum>i<M. ((\<Sum>j<K. D i j * x j) - y i)\<^sup>2)"
    by (intro sum.cong refl) (simp add: top btop)
  ultimately show ?thesis
    by (simp add: sum_lessThan_add sum_distrib_left)
qed

lemma sum_list_upt0: "(\<Sum>k\<leftarrow>[0..<n]. f k) = (\<Sum>k<n. f k)"
  by (simp add: interv_sum_list_conv_sum_set_nat atLeast0LessThan)

lemma ridge_cost_columns:
  assumes "is_matrix M N Y" "is_matrix K N W" "0 < M" "0 < K"
  shows "ridge_cost alpha D Y W =
     (\<Sum>n<N. (\<Sum>i<M. ((\<Sum>j<K. D ! i ! j * W ! j ! n) - Y ! i ! n)\<^sup>2) + alpha * (\<Sum>k<K. (W ! k ! n)\<^sup>2))"
proof -
  have dims: "length Y = M" "ncols Y = N" "length W = K" "ncols W = N"
    using assms ncols_is_matrix [OF assms(1,3)] ncols_is_matrix [OF assms(2,4)]
    by (simp_all add: is_matrix_iff)
  have "residual_sum D Y W = (\<Sum>i<M. \<Sum>n<N. ((\<Sum>j<K. D ! i ! j * W ! j ! n) - Y ! i ! n)\<^sup>2)"
    by (simp add: residual_sum_def dims sum_list_upt0 power2_commute)
  also have "\<dots> = (\<Sum>n<N. \<Sum>i<M. ((\<Sum>j<K. D ! i ! j * W ! j ! n) - Y ! i ! n)\<^sup>2)"
    by (rule sum.swap)
  finally have r: "residual_sum D Y W = (\<Sum>n<N. \<Sum>i<M. ((\<Sum>j<K. D ! i ! j * W ! j ! n) - Y ! i ! n)\<^sup>2)" .
  have "(\<Sum>k\<leftarrow>[0..<length W]. \<Sum>n\<leftarrow>[0..<ncols W]. (W ! k ! n)\<^sup>2) = (\<Sum>k<K. \<Sum>n<N. (W ! k ! n)\<^sup>2)"
    by (simp add: dims sum_list_upt0)
  also have "\<dots> = (\<Sum>n<N. \<Sum>k<K. (W ! k ! n)\<^sup>2)"
    by (rule sum.swap)
  finally show ?thesis
    by (simp add: ridge_cost_def r sum.distrib sum_distrib_left)
qed

lemma aug_D_shape:
  assumes "is_matrix M K D" "0 < M"
  shows "length (aug_D alpha D) = (if alpha \<noteq> 0 then M + K else M)"
    and "ncols (aug_D alpha D) = K"
    and "i < M \<Longrightarrow> aug_D alpha D ! i = D ! i"
    and "alpha \<noteq> 0 \<Longrightarrow> i < K \<Longrightarrow> j < K \<Longrightarrow>
           aug_D alpha D ! (M + i) ! j = sqrt alpha * (if i = j then 1 else 0)"
proof -
  have nc: "ncols D = K" and len: "length D = M"
    using assms ncols_is_matrix [OF assms] by (simp_all add: is_matrix_iff)
  show "length (aug_D alpha D) = (if alpha \<noteq> 0 then M + K else M)"
    by (simp add: aug_D_def nc len scale_def identity_def)
  show "ncols (aug_D alpha D) = K"
    using assms by (cases D) (auto simp: aug_D_def ncols_def is_matrix_def)
  show "i < M \<Longrightarrow> aug_D alpha D ! i = D ! i"
    by (simp add: aug_D_def len nth_append)
  show "alpha \<noteq> 0 \<Longrightarrow> i < K \<Longrightarrow> j < K \<Longrightarrow>
           aug_D alpha D ! (M + i) ! j = sqrt alpha * (if i = j then 1 else 0)"
    by (simp add: aug_D_def nc len nth_append scale_def identity_def)
qed

lemma aug_Y_shape:
  assumes "is_matrix M N Y" "0 < M"
  shows "length (aug_Y alpha K Y) = (if alpha \<noteq> 0 then M + K else M)"
    and "i < M \<Longrightarrow> aug_Y alpha K Y ! i = Y ! i"
    and "alpha \<noteq> 0 \<Longrightarrow> i < K \<Longrightarrow> n < N \<Longrightarrow> aug_Y alpha K Y ! (M + i) ! n = 0"
proof -
  have nc: "ncols Y = N" and len: "length Y = M"
    using assms ncols_is_matrix [OF assms] by (simp_all add: is_matrix_iff)
  show "length (aug_Y alpha K Y) = (if alpha \<noteq> 0 then M + K else M)"
    by (simp add: aug_Y_def len zeros_def)
  show "i < M \<Longrightarrow> aug_Y alpha K Y ! i = Y ! i"
    by (simp add: aug_Y_def len nth_append)
  show "alpha \<noteq> 0 \<Longrightarrow> i < K \<Longrightarrow> n < N \<Longrightarrow> aug_Y alpha K Y ! (M + i) ! n = 0"
    by (simp add: aug_Y_def nc len nth_append zeros_def)
qed

lemma augmented_cost_eq:
  assumes a: "0 \<le> alpha" and M: "0 < M"
    and D: "is_matrix M K D" and Y: "is_matrix M N Y" and n: "n < N"
  shows "(\<Sum>i<length (aug_D alpha D). ((\<Sum>j<K. aug_D alpha D ! i ! j * w j) - aug_Y alpha K Y ! i ! n)\<^sup>2)
       = (\<Sum>i<M. ((\<Sum>j<K. D ! i ! j * w j) - Y ! i ! n)\<^sup>2) + alpha * (\<Sum>k<K. (w k)\<^sup>2)"
proof (cases "alpha = 0")
  case True
  have "(\<Sum>i<M. ((\<Sum>j<K. aug_D alpha D ! i ! j * w j) - aug_Y alpha K Y ! i ! n)\<^sup>2)
      = (\<Sum>i<M. ((\<Sum>j<K. D ! i ! j * w j) - Y ! i ! n)\<^sup>2)"
    by (intro sum.cong refl) (simp add: aug_D_shape(3) [OF D M] aug_Y_shape(2) [OF Y M])
  then show ?thesis
    using True by (simp add: aug_D_shape(1) [OF D M])
next
  case False
  have "(\<Sum>i<M + K. ((\<Sum>j<K. aug_D alpha D ! i ! j * w j) - aug_Y alpha K Y ! i ! n)\<^sup>2)
      = (\<Sum>i<M. ((\<Sum>j<K. D ! i ! j * w j) - Y ! i ! n)\<^sup>2) + alpha * (\<Sum>k<K. (w k)\<^sup>2)"
    by (rule augmented_column_cost [OF a])
      (simp_all add: False n aug_D_shape(3,4) [OF D M] aug_Y_shape(2,3) [OF Y M])
  then show ?thesis
    using False by (simp add: aug_D_shape(1) [OF D M])
qed

lemma ridge_optimal:
  assumes a: "0 \<le> alpha" and M: "0 < M" and K: "0 < K"
    and D: "is_matrix M K D" and Y: "is_matrix M N Y"
    and qr: "qr_factors (aug_D alpha D) Q R" and nz: "\<forall>i<K. R ! i ! i \<noteq> 0"
    and X': "is_matrix K N X'"
  shows "ridge_cost alpha D Y (spec_back_substitution R (QtY_of Q (aug_Y alpha K Y) K N) K N)
       \<le> ridge_cost alpha D Y X'"
proof -
  let ?A = "aug_D alpha D" and ?b = "aug_Y alpha K Y"
  let ?m = "length ?A"
  let ?Z = "QtY_of Q ?b K N"
  let ?X = "spec_back_substitution R ?Z K N"
  have nc: "ncols ?A = K" by (rule aug_D_shape(2) [OF D M])
  have lb: "length ?b = ?m"
    by (simp add: aug_D_shape(1) [OF D M] aug_Y_shape(1) [OF Y M])
  have Q: "is_matrix ?m K Q" and R: "is_matrix K K R"
    and orth: "\<And>l l'. l < K \<Longrightarrow> l' < K \<Longrightarrow> (\<Sum>i<?m. Q ! i ! l * Q ! i ! l') = (if l = l' then 1 else 0)"
    and tri: "\<forall>i<K. \<forall>j<i. R ! i ! j = 0"
    and fac: "\<And>i j. i < ?m \<Longrightarrow> j < K \<Longrightarrow> ?A ! i ! j = (\<Sum>l<K. Q ! i ! l * R ! l ! j)"
    using qr by (simp_all add: qr_factors_def Let_def nc sum_list_upt0)
  have X: "is_matrix K N ?X"
    by (simp add: spec_back_substitution_def spec_row_def is_matrix_iff)
  have col: "(\<Sum>i<M. ((\<Sum>j<K. D ! i ! j * ?X ! j ! n) - Y ! i ! n)\<^sup>2) + alpha * (\<Sum>k<K. (?X ! k ! n)\<^sup>2)
      \<le> (\<Sum>i<M. ((\<Sum>j<K. D ! i ! j * X' ! j ! n) - Y ! i ! n)\<^sup>2) + alpha * (\<Sum>k<K. (X' ! k ! n)\<^sup>2)"
    if n: "n < N" for n
  proof -
    have sol: "(\<Sum>j<K. R ! l ! j * ?X ! j ! n) = (\<Sum>i<?m. Q ! i ! l * ?b ! i ! n)" if l: "l < K" for l
    proof -
      have "(\<Sum>j<K. R ! l ! j * ?X ! j ! n) = (\<Sum>j<K. R ! l ! j * spec_entry R ?Z K j n)"
        using n by (intro sum.cong refl) (simp add: spec_back_substitution_nth)
      also have "\<dots> = ?Z ! l ! n"
        by (rule back_substitution_solves [OF tri nz l])
      also have "\<dots> = (\<Sum>i<?m. Q ! i ! l * ?b ! i ! n)"
        using l n by (simp add: QtY_of_def lb sum_list_upt0)
      finally show ?thesis .
    qed
    have "(\<Sum>i<?m. ((\<Sum>j<K. ?A ! i ! j * ?X ! j ! n) - ?b ! i ! n)\<^sup>2)
        \<le> (\<Sum>i<?m. ((\<Sum>j<K. ?A ! i ! j * X' ! j ! n) - ?b ! i ! n)\<^sup>2)"
      by (rule least_squares_via_qr [where Q = "\<lambda>i l. Q ! i ! l" and R = "\<lambda>l j. R ! l ! j"])
        (simp_all add: fac orth sol)
    then show ?thesis
      by (simp add: augmented_cost_eq [OF a M D Y n])
  qed
  show ?thesis
    unfolding ridge_cost_columns [OF Y X M K] ridge_cost_columns [OF Y X' M K]
    by (rule sum_mono) (use col in simp)
qed

lemma lift_append: "lift (A @ B) = lift A @ lift B"
  by (simp add: lift_def)

lemma length_lift [simp]: "length (lift A) = length A"
  by (simp add: lift_def)

lemma lift_row: "i < length A \<Longrightarrow> lift A ! i = map Fin (A ! i)"
  by (simp add: lift_def)

lemma lift_zeros: "lift (zeros m n) = zeros m n"
  by (simp add: lift_def zeros_def zero_fval_def)

lemma lift_scaled_identity:
  "0 \<le> alpha \<Longrightarrow> scale (fsqrt alpha) (identity n) = lift (scale (sqrt alpha) (identity n))"
  by (simp add: scale_def identity_def lift_def fsqrt_def one_fval_def zero_fval_def if_distrib
      cong: if_cong)

lemma D_aug_of_lift:
  assumes "0 \<le> alpha" "is_matrix M K D" "0 < M"
  shows "D_aug_of alpha (lift D) = lift (aug_D alpha D)"
proof -
  have "length (lift D ! 0) = ncols D"
    using assms by (cases D) (auto simp: lift_def ncols_def is_matrix_def)
  then show ?thesis
    using assms(1) by (simp add: D_aug_of_def aug_D_def lift_append lift_scaled_identity)
qed

lemma Y_aug_of_lift:
  assumes "is_matrix M N Y" "0 < M"
  shows "Y_aug_of alpha K (lift Y) = lift (aug_Y alpha K Y)"
proof -
  have "length (lift Y ! 0) = ncols Y"
    using assms by (cases Y) (auto simp: lift_def ncols_def is_matrix_def)
  then show ?thesis
    by (simp add: Y_aug_of_def aug_Y_def lift_append lift_zeros)
qed

lemma QtY_of_lift:
  assumes "is_matrix m K Q" "is_matrix m N Y"
  shows "QtY_of (lift Q) (lift Y) K N = lift (QtY_of Q Y K N)"
proof -
  have "(\<Sum>i\<leftarrow>[0..<m]. lift Q ! i ! l * lift Y ! i ! n) = Fin (\<Sum>i\<leftarrow>[0..<m]. Q ! i ! l * Y ! i ! n)"
    if "l < K" "n < N" for l n
  proof -
    have "(\<Sum>i\<leftarrow>[0..<m]. lift Q ! i ! l * lift Y ! i ! n) = (\<Sum>i\<leftarrow>[0..<m]. Fin (Q ! i ! l * Y ! i ! n))"
      by (rule arg_cong [where f = sum_list], rule map_cong)
        (use assms that in \<open>simp_all add: lift_nth is_matrix_iff\<close>)
    then show ?thesis by (simp add: sum_list_Fin)
  qed
  moreover have "length Y = m" using assms by (simp add: is_matrix_iff)
  ultimately show ?thesis
    by (simp add: QtY_of_def lift_def)
qed

lemma is_matrix_aug_Y:
  assumes "is_matrix M N Y" "0 < M"
  shows "is_matrix (if alpha \<noteq> 0 then M + K else M) N (aug_Y alpha K Y)"
  using assms ncols_is_matrix [OF assms]
  by (auto simp: aug_Y_def intro: is_matrix_append is_matrix_zeros)

lemma getDAS_lift:
  assumes a: "0 \<le> alpha" and M: "0 < M" and K: "0 < K"
    and D: "is_matrix M K D" and Y: "is_matrix M N Y"
    and qr: "qr (lift (aug_D alpha D)) = (lift Q, lift R)"
    and Q: "is_matrix (length (aug_D alpha D)) K Q" and R: "is_matrix K K R"
    and nz: "\<forall>i<K. R ! i ! i \<noteq> 0"
  shows "getDAS qr (lift D) (lift Y) alpha
       = Inr (lift (spec_back_substitution R (QtY_of Q (aug_Y alpha K Y) K N) K N))"
proof -
  have DA: "D_aug_of alpha (lift D) = lift (aug_D alpha D)"
    by (rule D_aug_of_lift [OF a D M])
  have YA: "Y_aug_of alpha K (lift Y) = lift (aug_Y alpha K Y)"
    by (rule Y_aug_of_lift [OF Y M])
  have len: "length (aug_D alpha D) = (if alpha \<noteq> 0 then M + K else M)"
    by (rule aug_D_shape(1) [OF D M])
  have Ya: "is_matrix (length (aug_D alpha D)) N (aug_Y alpha K Y)"
    using is_matrix_aug_Y [OF Y M] len by simp
  have "getDAS qr (lift D) (lift Y) alpha
      = Inr (spec_back_substitution (lift R) (QtY_of (lift Q) (Y_aug_of alpha K (lift Y)) K N) K N)"
    by (rule getDAS_result [where M = M])
      (simp_all add: is_matrix_lift D Y M K DA qr Q R)
  also have "QtY_of (lift Q) (Y_aug_of alpha K (lift Y)) K N = lift (QtY_of Q (aug_Y alpha K Y) K N)"
    by (simp add: YA QtY_of_lift [OF Q Ya])
  also have "spec_back_substitution (lift R) (lift (QtY_of Q (aug_Y alpha K Y) K N)) K N
      = lift (spec_back_substitution R (QtY_of Q (aug_Y alpha K Y) K N) K N)"
    by (rule spec_back_substitution_lift [OF R is_matrix_QtY_of nz])
  finally show ?thesis .
qed

lemma sum_squares_lift: "sum_squares (lift B) = Fin (\<Sum>r\<leftarrow>B. \<Sum>x\<leftarrow>r. x * x)"
proof -
  have "(\<Sum>x\<leftarrow>map Fin r. x * x) = Fin (\<Sum>x\<leftarrow>r. x * x)" for r :: "real list"
    by (induction r) (simp_all add: zero_fval_def)
  then show ?thesis
    by (induction B) (simp_all add: sum_squares_def lift_def zero_fval_def)
qed

lemma residual_lift:
  assumes D: "is_matrix M K D" and Y: "is_matrix M N Y" and X: "is_matrix K N X"
    and M: "0 < M" and K: "0 < K"
  shows "residual (lift Y) (lift D) (lift X) = Inr (Fin (residual_sum D Y X))"
proof -
  let ?B = "map (\<lambda>i. map (\<lambda>n. Y ! i ! n - (\<Sum>k\<leftarrow>[0..<K]. D ! i ! k * X ! k ! n)) [0..<N]) [0..<M]"
  let ?P = "map (\<lambda>r. map (\<lambda>n. \<Sum>k\<leftarrow>[0..<length (lift X)]. r ! k * lift X ! k ! n) [0..<ncols (lift X)]) (lift D)"
  have dims: "length D = M" "length Y = M" "length X = K" "ncols Y = N" "ncols X = N"
    using D Y X ncols_is_matrix [OF Y M] ncols_is_matrix [OF X K] by (simp_all add: is_matrix_iff)
  have ncl: "ncols (lift X) = N"
    using ncols_is_matrix [of K N "lift X"] X K by (simp add: is_matrix_lift)
  have chk: "list_all (\<lambda>r. length r = length (lift X)) (lift D)"
    using D by (simp add: lift_def is_matrix_def list_all_iff dims)
  have dot: "dot (lift D) (lift X) = Inr ?P"
    using chk by (simp add: dot_def)
  have Pin: "?P ! i ! n = Fin (\<Sum>k\<leftarrow>[0..<K]. D ! i ! k * X ! k ! n)" if "i < M" "n < N" for i n
  proof -
    have "(\<Sum>k\<leftarrow>[0..<K]. lift D ! i ! k * lift X ! k ! n) = (\<Sum>k\<leftarrow>[0..<K]. Fin (D ! i ! k * X ! k ! n))"
      by (rule arg_cong [where f = sum_list], rule map_cong)
        (use D X that in \<open>simp_all add: lift_nth is_matrix_iff\<close>)
    then show ?thesis
      using that by (simp add: ncl dims sum_list_Fin)
  qed
  have "msub (lift Y) ?P = lift ?B"
  proof (rule nth_equalityI)
    show "length (msub (lift Y) ?P) = length (lift ?B)"
      by (simp add: msub_def dims)
  next
    fix i assume "i < length (msub (lift Y) ?P)"
    then have i: "i < M" by (simp add: msub_def dims)
    have ly: "length (lift Y ! i) = N"
      using Y i by (simp add: lift_def is_matrix_iff)
    show "msub (lift Y) ?P ! i = lift ?B ! i"
    proof (rule nth_equalityI)
      show "length (msub (lift Y) ?P ! i) = length (lift ?B ! i)"
        using i ly by (simp add: msub_def vsub_def dims ncl lift_row)
    next
      fix n assume "n < length (msub (lift Y) ?P ! i)"
      then have n: "n < N" using i ly by (simp add: msub_def vsub_def dims ncl)
      have "msub (lift Y) ?P ! i ! n = lift Y ! i ! n - ?P ! i ! n"
        using i n ly by (simp add: msub_def vsub_def dims ncl)
      also have "\<dots> = Fin (Y ! i ! n - (\<Sum>k\<leftarrow>[0..<K]. D ! i ! k * X ! k ! n))"
        using Pin [OF i n] Y i n by (simp add: lift_nth is_matrix_iff)
      finally show "msub (lift Y) ?P ! i ! n = lift ?B ! i ! n"
        using i n by (simp add: lift_row)
    qed
  qed
  moreover have "(\<Sum>r\<leftarrow>?B. \<Sum>x\<leftarrow>r. x * x) = residual_sum D Y X"
    by (simp add: residual_sum_def dims comp_def power2_eq_square)
  ultimately show ?thesis
    by (simp add: residual_def dot sum_squares_lift)
qed

lemma aug_D_pos:
  assumes "alpha \<noteq> 0" "is_matrix M K D" "0 < M"
  shows "aug_D alpha D = D @ scale (sqrt alpha) (identity K)"
  using assms ncols_is_matrix [OF assms(2,3)] by (simp add: aug_D_def)

lemma aug_Y_pos:
  assumes "alpha \<noteq> 0" "is_matrix M N Y" "0 < M"
  shows "aug_Y alpha K Y = Y @ zeros K N"
  using assms ncols_is_matrix [OF assms(2,3)] by (simp add: aug_Y_def)

lemma sqrt_16: "sqrt 16 = (4::real)"
  using real_sqrt_abs [of 4] by simp

lemma min_objective_training_residual:
  "genD FWHM_mod taus T fit_irf = Inr D \<Longrightarrow>
   min_objective qr FWHM_mod taus Y T alpha fit_irf = training_residual qr D Y alpha"
  by (simp add: min_objective_def training_residual_def)

lemma qr_factors_shapes:
  assumes "qr_factors (aug_D alpha D) Q R" "is_matrix M K D" "0 < M"
  shows "is_matrix (length (aug_D alpha D)) K Q" "is_matrix K K R"
  using assms(1) aug_D_shape(2) [OF assms(2,3), of alpha]
  by (simp_all add: qr_factors_def Let_def)

lemma training_residual_lift:
  assumes a: "0 \<le> alpha" and M: "0 < M" and K: "0 < K"
    and D: "is_matrix M K D" and Y: "is_matrix M N Y"
    and qr: "qr (lift (aug_D alpha D)) = (lift Q, lift R)"
    and qf: "qr_factors (aug_D alpha D) Q R" and nz: "\<forall>i<K. R ! i ! i \<noteq> 0"
  shows "training_residual qr (lift D) (lift Y) alpha
       = Inr (Fin (residual_sum D Y (spec_back_substitution R (QtY_of Q (aug_Y alpha K Y) K N) K N)))"
proof -
  let ?X = "spec_back_substitution R (QtY_of Q (aug_Y alpha K Y) K N) K N"
  have "getDAS qr (lift D) (lift Y) alpha = Inr (lift ?X)"
    by (rule getDAS_lift [where qr = qr, OF a M K D Y qr qr_factors_shapes [OF qf D M] nz])
  moreover have "residual (lift Y) (lift D) (lift ?X) = Inr (Fin (residual_sum D Y ?X))"
    by (rule residual_lift [OF D Y is_matrix_spec_back_substitution M K])
  ultimately show ?thesis
    by (simp add: training_residual_def)
qed

lemma ridge_residual_monotone:
  fixes r1 r2 p1 p2 a1 a2 :: real
  assumes "0 \<le> a1" "a1 < a2" "r1 + a1 * p1 \<le> r2 + a1 * p2" "r2 + a2 * p2 \<le> r1 + a2 * p1"
  shows "r1 \<le> r2"
proof -
  have "(a2 - a1) * (p2 - p1) \<le> 0"
    using assms(3,4) by (simp add: algebra_simps)
  moreover have "0 < a2 - a1" using assms(2) by simp
  ultimately have "p2 - p1 \<le> 0"
    by (simp add: mult_le_0_iff)
  then have "a1 * (p2 - p1) \<le> 0"
    using assms(1) by (simp add: mult_nonneg_nonpos)
  then show ?thesis
    using assms(3) by (simp add: algebra_simps)
qed

lemma triangular_null_vector:
  fixes R :: "real matrix"
  assumes tri: "\<forall>i<K. \<forall>l<i. R ! i ! l = 0"
    and j: "j < K" and zero: "R ! j ! j = 0" and least: "\<forall>i<j. R ! i ! i \<noteq> 0"
  shows "\<exists>w. w j = 1 \<and> (\<forall>l<K. (\<Sum>k<K. R ! l ! k * w k) = 0)"
proof -
  define Z where "Z = map (\<lambda>k. [- (R ! k ! j)]) [0..<j]"
  define v where "v k = spec_entry R Z j k 0" for k
  define w where "w k = (if k < j then v k else if k = j then 1 else 0)" for k
  have tri': "\<forall>i<j. \<forall>l<i. R ! i ! l = 0" using tri j by simp
  have solve: "(\<Sum>k<j. R ! i ! k * v k) = - (R ! i ! j)" if "i < j" for i
    using back_substitution_solves [OF tri' least that, of Z 0] that by (simp add: v_def Z_def)
  have split: "(\<Sum>k<K. R ! l ! k * w k) = (\<Sum>k<j. R ! l ! k * v k) + R ! l ! j" for l
  proof -
    have "(\<Sum>k = 0..<K. R ! l ! k * w k)
        = (\<Sum>k = 0..<j. R ! l ! k * w k) + (\<Sum>k = j..<K. R ! l ! k * w k)"
      using j by (simp add: sum.atLeastLessThan_concat)
    also have "(\<Sum>k = j..<K. R ! l ! k * w k) = R ! l ! j * w j + (\<Sum>k = Suc j..<K. R ! l ! k * w k)"
      using j by (simp add: sum.atLeast_Suc_lessThan)
    also have "(\<Sum>k = Suc j..<K. R ! l ! k * w k) = 0"
      by (rule sum.neutral) (simp add: w_def)
    also have "(\<Sum>k = 0..<j. R ! l ! k * w k) = (\<Sum>k = 0..<j. R ! l ! k * v k)"
      by (rule sum.cong) (simp_all add: w_def)
    finally show ?thesis
      by (simp add: atLeast0LessThan w_def)
  qed
  have "(\<Sum>k<K. R ! l ! k * w k) = 0" if l: "l < K" for l
  proof -
    consider "l < j" | "l = j" | "j < l" by arith
    then show ?thesis
    proof cases
      case 1
      then show ?thesis by (simp add: split solve)
    next
      case 2
      have "(\<Sum>k<j. R ! j ! k * v k) = 0"
        using tri j by (intro sum.neutral) simp
      with 2 show ?thesis by (simp add: split zero)
    next
      case 3
      have "(\<Sum>k<j. R ! l ! k * v k) = 0"
        using tri l 3 by (intro sum.neutral) simp
      moreover have "R ! l ! j = 0" using tri l 3 by simp
      ultimately show ?thesis by (simp add: split)
    qed
  qed
  moreover have "w j = 1" by (simp add: w_def)
  ultimately show ?thesis by blast
qed

lemma qr_diagonal_nonzero:
  assumes a: "0 < alpha" and M: "0 < M" and D: "is_matrix M K D"
    and qf: "qr_factors (aug_D alpha D) Q R"
  shows "\<forall>i<K. R ! i ! i \<noteq> 0"
proof (rule ccontr)
  assume "\<not> (\<forall>i<K. R ! i ! i \<noteq> 0)"
  then have ex: "\<exists>i. i < K \<and> R ! i ! i = 0" by blast
  define j where "j = (LEAST i. i < K \<and> R ! i ! i = 0)"
  have j: "j < K" "R ! j ! j = 0"
    using LeastI_ex [OF ex] by (simp_all add: j_def)
  have least: "\<forall>i<j. R ! i ! i \<noteq> 0"
  proof (intro allI impI notI)
    fix i assume "i < j" "R ! i ! i = 0"
    then have "i < K \<and> R ! i ! i = 0" using j(1) by simp
    then have "j \<le> i" unfolding j_def by (rule Least_le)
    with \<open>i < j\<close> show False by simp
  qed
  let ?A = "aug_D alpha D"
  have nc: "ncols ?A = K" by (rule aug_D_shape(2) [OF D M])
  have len: "length ?A = M + K" using a by (simp add: aug_D_shape(1) [OF D M])
  have tri: "\<forall>i<K. \<forall>l<i. R ! i ! l = 0"
    and fac: "\<And>i k. i < M + K \<Longrightarrow> k < K \<Longrightarrow> ?A ! i ! k = (\<Sum>l<K. Q ! i ! l * R ! l ! k)"
    using qf by (simp_all add: qr_factors_def Let_def nc len sum_list_upt0)
  obtain w where w: "w j = 1" "\<forall>l<K. (\<Sum>k<K. R ! l ! k * w k) = 0"
    using triangular_null_vector [OF tri j least] by blast
  have "(\<Sum>k<K. ?A ! (M + j) ! k * w k) = (\<Sum>k<K. \<Sum>l<K. Q ! (M + j) ! l * (R ! l ! k * w k))"
    using j(1) by (intro sum.cong refl) (simp add: fac sum_distrib_right mult.assoc)
  also have "\<dots> = (\<Sum>l<K. \<Sum>k<K. Q ! (M + j) ! l * (R ! l ! k * w k))"
    by (rule sum.swap)
  also have "\<dots> = (\<Sum>l<K. Q ! (M + j) ! l * (\<Sum>k<K. R ! l ! k * w k))"
    by (simp add: sum_distrib_left)
  also have "\<dots> = 0"
    using w(2) by simp
  finally have z: "(\<Sum>k<K. ?A ! (M + j) ! k * w k) = 0" .
  have "(\<Sum>k<K. ?A ! (M + j) ! k * w k) = (\<Sum>k<K. if j = k then sqrt alpha * w k else 0)"
    using a j(1) by (intro sum.cong refl) (simp add: aug_D_shape(4) [OF D M])
  also have "\<dots> = sqrt alpha"
    using j(1) w(1) by (simp add: sum.delta')
  finally show False
    using z a by simp
qed

lemma sqrt_16_9: "sqrt (16 / 9) = (4 / 3 :: real)"
  using real_sqrt_abs [of "4 / 3"] by (simp add: power2_eq_square)

text \<open>
  C2. For \<open>alpha > 0\<close> the solver factors \<open>D\<close> with \<open>sqrt alpha\<close> times the identity
  stacked beneath it and multiplies \<open>Q\<^sup>T\<close> with \<open>Y\<close> over a \<open>K \<times> N\<close> block of zeros. Whenever
  \<open>qr\<close> returns a reduced QR factorisation of the stacked array, the diagonal of \<open>R\<close> has
  no zero, the solver returns the back-substituted solution \<open>X\<close>, and \<open>X\<close> minimises
  \<open>\<Sum>(Y - D X)\<^sup>2 + alpha * \<Sum>X\<^sup>2\<close> over all \<open>K \<times> N\<close> arrays.
\<close>

theorem getDAS_ridge_minimizer:
  fixes D Y Q R :: "real matrix" and K N :: nat
  defines "X \<equiv> spec_back_substitution R (QtY_of Q (Y @ zeros K N) K N) K N"
  assumes "0 < alpha" "0 < M" "0 < K" "is_matrix M K D" "is_matrix M N Y"
    and "qr (lift (D @ scale (sqrt alpha) (identity K))) = (lift Q, lift R)"
    and "qr_factors (D @ scale (sqrt alpha) (identity K)) Q R"
  shows "(\<forall>i<K. R ! i ! i \<noteq> 0) \<and>
         getDAS qr (lift D) (lift Y) alpha = Inr (lift X) \<and> is_matrix K N X \<and>
         (\<forall>X'. is_matrix K N X' \<longrightarrow> ridge_cost alpha D Y X \<le> ridge_cost alpha D Y X')"
proof -
  have a: "0 \<le> alpha" "alpha \<noteq> 0" using assms(2) by simp_all
  have A: "aug_D alpha D = D @ scale (sqrt alpha) (identity K)"
    by (rule aug_D_pos [OF a(2) assms(5,3)])
  have B: "aug_Y alpha K Y = Y @ zeros K N"
    by (rule aug_Y_pos [OF a(2) assms(6,3)])
  have qf: "qr_factors (aug_D alpha D) Q R" using assms(8) A by simp
  have nz: "\<forall>i<K. R ! i ! i \<noteq> 0"
    by (rule qr_diagonal_nonzero [OF assms(2,3,5) qf])
  have "getDAS qr (lift D) (lift Y) alpha = Inr (lift X)"
    using getDAS_lift [where qr = qr and N = N, OF a(1) assms(3,4,5,6) _
        qr_factors_shapes [OF qf assms(5,3)] nz] assms(7) A B
    by (simp add: X_def)
  moreover have "ridge_cost alpha D Y X \<le> ridge_cost alpha D Y X'" if "is_matrix K N X'" for X'
    using ridge_optimal [OF a(1) assms(3,4,5,6) qf nz that] B by (simp add: X_def)
  ultimately show ?thesis
    using nz by (simp add: X_def is_matrix_spec_back_substitution)
qed

theorem getDAS_ridge_minimizer_witness:
  "getDAS (\<lambda>A. ([[Fin (3 / 5)], [Fin (4 / 5)]], [[Fin 5]])) [[Fin 3]] [[Fin 5]] 16
     = Inr [[Fin (3 / 5)]] \<and>
   ridge_cost 16 [[3]] [[5]] [[3 / 5]] \<le> ridge_cost 16 [[3]] [[5]] [[1]]"
proof -
  let ?qr = "\<lambda>A :: fval matrix. ([[Fin (3 / 5)], [Fin (4 / 5)]], [[Fin 5 :: fval]])"
  let ?Q = "[[3 / 5], [4 / 5 :: real]]" and ?R = "[[5 :: real]]"
  have u: "[0..<2] = [0, Suc 0]" by (simp add: numeral_2_eq_2)
  have A: "[[3]] @ scale (sqrt 16) (identity 1) = [[3], [4 :: real]]"
    by (simp add: scale_def identity_def sqrt_16)
  have qf: "qr_factors ([[3]] @ scale (sqrt 16) (identity 1)) ?Q ?R"
    unfolding A by (simp add: qr_factors_def ncols_def is_matrix_def u less_Suc_eq)
  have X: "spec_back_substitution ?R (QtY_of ?Q ([[5]] @ zeros 1 1) 1 1) 1 1 = [[3 / 5]]"
    by (simp add: spec_back_substitution_def spec_row_def QtY_of_def zeros_def u)
      (subst spec_entry.simps, simp)
  have "(\<forall>i<1. ?R ! i ! i \<noteq> 0) \<and>
        getDAS ?qr (lift [[3]]) (lift [[5]]) 16
          = Inr (lift (spec_back_substitution ?R (QtY_of ?Q ([[5]] @ zeros 1 1) 1 1) 1 1)) \<and>
        is_matrix 1 1 (spec_back_substitution ?R (QtY_of ?Q ([[5]] @ zeros 1 1) 1 1) 1 1) \<and>
        (\<forall>X'. is_matrix 1 1 X' \<longrightarrow>
           ridge_cost 16 [[3]] [[5]] (spec_back_substitution ?R (QtY_of ?Q ([[5]] @ zeros 1 1) 1 1) 1 1)
             \<le> ridge_cost 16 [[3]] [[5]] X')"
  proof (rule getDAS_ridge_minimizer [where M = 1, OF _ _ _ _ _ _ qf])
    show "?qr (lift ([[3]] @ scale (sqrt 16) (identity 1))) = (lift ?Q, lift ?R)"
      by (simp add: lift_def)
  qed (simp_all add: is_matrix_def)
  then have "getDAS ?qr (lift [[3]]) (lift [[5]]) 16 = Inr (lift [[3 / 5]]) \<and>
        (\<forall>X'. is_matrix 1 1 X' \<longrightarrow> ridge_cost 16 [[3]] [[5]] [[3 / 5]] \<le> ridge_cost 16 [[3]] [[5]] X')"
    unfolding X by simp
  moreover have "is_matrix 1 1 [[1 :: real]]"
    by (simp add: is_matrix_def)
  ultimately show ?thesis
    by (simp add: lift_def)
qed

lemma training_residual_monotone_nz:
  assumes "0 \<le> alpha1" "alpha1 < alpha2" "0 < M" "0 < K" "is_matrix M K D" "is_matrix M N Y"
    and "qr (lift (aug_D alpha1 D)) = (lift Q1, lift R1)" "qr_factors (aug_D alpha1 D) Q1 R1"
    and "\<forall>i<K. R1 ! i ! i \<noteq> 0"
    and "qr (lift (aug_D alpha2 D)) = (lift Q2, lift R2)" "qr_factors (aug_D alpha2 D) Q2 R2"
    and "\<forall>i<K. R2 ! i ! i \<noteq> 0"
  shows "\<exists>r1 r2. training_residual qr (lift D) (lift Y) alpha1 = Inr (Fin r1) \<and>
                 training_residual qr (lift D) (lift Y) alpha2 = Inr (Fin r2) \<and> r1 \<le> r2"
proof -
  let ?X1 = "spec_back_substitution R1 (QtY_of Q1 (aug_Y alpha1 K Y) K N) K N"
  let ?X2 = "spec_back_substitution R2 (QtY_of Q2 (aug_Y alpha2 K Y) K N) K N"
  let ?p = "\<lambda>X :: real matrix. \<Sum>k\<leftarrow>[0..<length X]. \<Sum>n\<leftarrow>[0..<ncols X]. (X ! k ! n)\<^sup>2"
  have a2: "0 \<le> alpha2" using assms(1,2) by simp
  have t1: "training_residual qr (lift D) (lift Y) alpha1 = Inr (Fin (residual_sum D Y ?X1))"
    by (rule training_residual_lift [where qr = qr, OF assms(1,3,4,5,6,7,8,9)])
  have t2: "training_residual qr (lift D) (lift Y) alpha2 = Inr (Fin (residual_sum D Y ?X2))"
    by (rule training_residual_lift [where qr = qr, OF a2 assms(3,4,5,6,10,11,12)])
  have o1: "ridge_cost alpha1 D Y ?X1 \<le> ridge_cost alpha1 D Y ?X2"
    by (rule ridge_optimal [OF assms(1,3,4,5,6,8,9) is_matrix_spec_back_substitution])
  have o2: "ridge_cost alpha2 D Y ?X2 \<le> ridge_cost alpha2 D Y ?X1"
    by (rule ridge_optimal [OF a2 assms(3,4,5,6,11,12) is_matrix_spec_back_substitution])
  have "residual_sum D Y ?X1 \<le> residual_sum D Y ?X2"
    by (rule ridge_residual_monotone [OF assms(1,2), of _ "?p ?X1" _ "?p ?X2"])
      (use o1 o2 in \<open>simp_all add: ridge_cost_def\<close>)
  with t1 t2 show ?thesis by blast
qed

text \<open>
  C8, as stated: for every \<open>D\<close> and \<open>Y\<close> and all weights \<open>0 \<le> alpha1 < alpha2\<close> the residual
  at \<open>alpha2\<close> is at least the residual at \<open>alpha1\<close>. It fails at \<open>alpha1 = 0\<close> for a
  rank-deficient \<open>D\<close>: for the zero column \<open>D = [[0]]\<close> and \<open>Y = [[1]]\<close> the solve divides by
  the zero diagonal, the amplitude is infinite and the residual is NaN, which no residual
  at a positive weight (here 1) is greater than or equal to.
\<close>

theorem training_residual_rank_deficient_counterexample:
  "training_residual
     (\<lambda>A. if A = [[Fin 0]] then ([[Fin 1]], [[Fin 0]]) else ([[Fin 0], [Fin 1]], [[Fin 1]]))
     [[Fin 0]] [[Fin 1]] 0 = Inr NaN \<and>
   training_residual
     (\<lambda>A. if A = [[Fin 0]] then ([[Fin 1]], [[Fin 0]]) else ([[Fin 0], [Fin 1]], [[Fin 1]]))
     [[Fin 0]] [[Fin 1]] 1 = Inr (Fin 1) \<and>
   \<not> fle NaN (Fin 1)"
proof -
  let ?qr = "\<lambda>A :: fval matrix. if A = [[Fin 0]] then ([[Fin 1]], [[Fin 0 :: fval]])
      else ([[Fin 0], [Fin 1]], [[Fin 1]])"
  have u: "[0..<2] = [0, Suc 0]" by (simp add: numeral_2_eq_2)
  have g0: "getDAS ?qr [[Fin 0]] [[Fin 1]] 0 = Inr [[PInf]]"
    by (simp add: getDAS_def dot_def transpose_np_def ncols_def zeros_def back_substitution_def
        vdiv_def fval_arith_simps signed_inf_def)
  have r0: "residual [[Fin 1]] [[Fin 0]] [[PInf]] = Inr NaN"
    by (simp add: residual_def dot_def ncols_def msub_def vsub_def sum_squares_def
        fval_arith_simps signed_inf_def)
  have g1: "getDAS ?qr [[Fin 0]] [[Fin 1]] 1 = Inr [[Fin 0]]"
    by (simp add: getDAS_def dot_def transpose_np_def ncols_def zeros_def back_substitution_def
        vdiv_def scale_def identity_def fsqrt_def fval_arith_simps signed_inf_def u)
  have r1: "residual [[Fin 1]] [[Fin 0]] [[Fin 0]] = Inr (Fin 1)"
    by (simp add: residual_def dot_def ncols_def msub_def vsub_def sum_squares_def
        fval_arith_simps)
  show ?thesis
    by (simp add: training_residual_def g0 r0 g1 r1)
qed

text \<open>
  C8, amended: for weights \<open>0 \<le> alpha1 < alpha2\<close> and reduced QR factorisations of the two
  augmented arrays, where for \<open>alpha1 = 0\<close> the factor \<open>R\<close> has no zero on its diagonal,
  both residuals are finite and the residual at \<open>alpha2\<close> is at least the one at
  \<open>alpha1\<close>. (For a positive weight the diagonal of \<open>R\<close> is never zero.)
\<close>

theorem training_residual_monotone:
  assumes "0 \<le> alpha1" "alpha1 < alpha2" "0 < M" "0 < K" "is_matrix M K D" "is_matrix M N Y"
    and "qr (lift (aug_D alpha1 D)) = (lift Q1, lift R1)" "qr_factors (aug_D alpha1 D) Q1 R1"
    and "alpha1 = 0 \<longrightarrow> (\<forall>i<K. R1 ! i ! i \<noteq> 0)"
    and "qr (lift (aug_D alpha2 D)) = (lift Q2, lift R2)" "qr_factors (aug_D alpha2 D) Q2 R2"
  shows "\<exists>r1 r2. training_residual qr (lift D) (lift Y) alpha1 = Inr (Fin r1) \<and>
                 training_residual qr (lift D) (lift Y) alpha2 = Inr (Fin r2) \<and> r1 \<le> r2"
proof -
  have nz1: "\<forall>i<K. R1 ! i ! i \<noteq> 0"
  proof (cases "alpha1 = 0")
    case True
    then show ?thesis using assms(9) by simp
  next
    case False
    then have "0 < alpha1" using assms(1) by simp
    then show ?thesis by (rule qr_diagonal_nonzero [OF _ assms(3,5,8)])
  qed
  have "0 < alpha2" using assms(1,2) by simp
  then have nz2: "\<forall>i<K. R2 ! i ! i \<noteq> 0"
    by (rule qr_diagonal_nonzero [OF _ assms(3,5,11)])
  show ?thesis
    by (rule training_residual_monotone_nz [OF assms(1,2,3,4,5,6,7,8) nz1 assms(10,11) nz2])
qed

theorem training_residual_monotone_witness:
  "\<exists>r1 r2.
     training_residual
       (\<lambda>A. if A = [[Fin 1]] then ([[Fin 1]], [[Fin 1]])
            else ([[Fin (3 / 5)], [Fin (4 / 5)]], [[Fin (5 / 3)]]))
       [[Fin 1]] [[Fin 5]] 0 = Inr (Fin r1) \<and>
     training_residual
       (\<lambda>A. if A = [[Fin 1]] then ([[Fin 1]], [[Fin 1]])
            else ([[Fin (3 / 5)], [Fin (4 / 5)]], [[Fin (5 / 3)]]))
       [[Fin 1]] [[Fin 5]] (16 / 9) = Inr (Fin r2) \<and> r1 \<le> r2"
proof -
  let ?qr = "\<lambda>A :: fval matrix. if A = [[Fin 1]] then ([[Fin 1]], [[Fin 1 :: fval]])
            else ([[Fin (3 / 5)], [Fin (4 / 5)]], [[Fin (5 / 3)]])"
  have u: "[0..<2] = [0, Suc 0]" by (simp add: numeral_2_eq_2)
  have A1: "aug_D 0 [[1]] = [[1 :: real]]" by (simp add: aug_D_def)
  have A2: "aug_D (16 / 9) [[1]] = [[1], [4 / 3 :: real]]"
    by (simp add: aug_D_def scale_def identity_def ncols_def sqrt_16_9)
  have f1: "qr_factors (aug_D 0 [[1]]) [[1]] [[1]]"
    unfolding A1 by (simp add: qr_factors_def ncols_def is_matrix_def)
  have f2: "qr_factors (aug_D (16 / 9) [[1]]) [[3 / 5], [4 / 5]] [[5 / 3]]"
    unfolding A2 by (simp add: qr_factors_def ncols_def is_matrix_def u less_Suc_eq)
  have q1: "?qr (lift (aug_D 0 [[1]])) = (lift [[1]], lift [[1]])"
    unfolding A1 by (simp add: lift_def)
  have q2: "?qr (lift (aug_D (16 / 9) [[1]])) = (lift [[3 / 5], [4 / 5]], lift [[5 / 3]])"
    unfolding A2 by (simp add: lift_def)
  have "\<exists>r1 r2. training_residual ?qr (lift [[1]]) (lift [[5]]) 0 = Inr (Fin r1) \<and>
      training_residual ?qr (lift [[1]]) (lift [[5]]) (16 / 9) = Inr (Fin r2) \<and> r1 \<le> r2"
    by (rule training_residual_monotone [where qr = ?qr and M = 1 and K = 1 and N = 1,
          OF _ _ _ _ _ _ q1 f1 _ q2 f2])
      (simp_all add: is_matrix_def)
  then show ?thesis by (simp add: lift_def)
qed

section \<open>Width fitting\<close>

lemma min_objective_fit_irf:
  "min_objective qr FWHM_mod taus Y T alpha True
     = (if taus = [] then Inl ValueError else Inl NameError)"
  by (simp add: min_objective_def genD_fit_irf)

lemma GA_fit_irf: "GA minimize qr FWHM_mod x0 Y T alpha B True \<noteq> Inr r"
  by (simp add: GA_def genD_fit_irf split: sum.splits)

text \<open>
  C7. The claim: with width fitting and a parameter vector of length \<open>K + 1\<close> the fit
  returns \<open>K\<close> lifetimes and the fitted width, from decay matrices with \<open>K\<close> columns.
  In the source a width fit returns nothing: every evaluation of the objective with
  \<open>fit_irf\<close> true raises \<^verbatim>\<open>NameError\<close> in \<^verbatim>\<open>_genD\<close> before a decay matrix is built, and
  so does the call of \<^verbatim>\<open>_genD\<close> that follows the optimiser in \<^verbatim>\<open>_GA\<close>. When the
  columns are selected, the start vector is not empty and the optimiser lets the
  exception of its first evaluation, at the start vector, pass, \<^verbatim>\<open>Global\<close> raises
  \<^verbatim>\<open>NameError\<close>; and whatever the optimiser does, \<^verbatim>\<open>Global\<close> returns no result.
\<close>

theorem Global_fit_irf_raises:
  assumes sel: "get_wLSVs_for_fit wLSV T wLSVs B = Inr (idx, wLSV_fit)"
    and x0: "x0 \<noteq> []"
    and pass: "\<And>f e. f x0 = Inl e \<Longrightarrow> minimize f x0 B = Inl e"
  shows "Global minimize qr wLSV T FWHM_mod wLSVs x0 B alpha True = Inl NameError \<and>
         (\<forall>taus. taus \<noteq> [] \<longrightarrow>
            min_objective qr FWHM_mod taus (lift wLSV_fit) T alpha True = Inl NameError) \<and>
         (\<forall>taus D. genD FWHM_mod taus T True \<noteq> Inr D) \<and>
         (\<forall>m x B' r. Global m qr wLSV T FWHM_mod wLSVs x B' alpha True \<noteq> Inr r)"
proof (intro conjI allI impI)
  have "min_objective qr FWHM_mod x0 (lift wLSV_fit) T alpha True = Inl NameError"
    using x0 by (simp add: min_objective_fit_irf)
  then have "minimize (\<lambda>taus. min_objective qr FWHM_mod taus (lift wLSV_fit) T alpha True) x0 B
      = Inl NameError"
    by (rule pass)
  then show "Global minimize qr wLSV T FWHM_mod wLSVs x0 B alpha True = Inl NameError"
    by (simp add: Global_def GA_def sel)
next
  fix taus :: "real list"
  assume "taus \<noteq> []"
  then show "min_objective qr FWHM_mod taus (lift wLSV_fit) T alpha True = Inl NameError"
    by (simp add: min_objective_fit_irf)
next
  fix taus D
  show "genD FWHM_mod taus T True \<noteq> Inr D"
    by (simp add: genD_fit_irf)
next
  fix m x B' r
  show "Global m qr wLSV T FWHM_mod wLSVs x B' alpha True \<noteq> Inr r"
    using GA_fit_irf [where minimize = m]
    by (auto simp: Global_def split: sum.splits prod.splits)
qed

theorem Global_fit_irf_raises_witness:
  "Global (\<lambda>f x B. case f x of Inl e \<Rightarrow> Inl e | Inr v \<Rightarrow> Inr x) (\<lambda>A. ([[Fin 1]], [[Fin 1]]))
     [[5]] [0] 0 ''1'' [1, 1] None 0 True = Inl NameError"
proof -
  let ?min = "\<lambda>(f :: real list \<Rightarrow> error + fval) (x :: real list) (B :: (real \<times> real) list option).
      ((case f x of Inl e \<Rightarrow> Inl e | Inr v \<Rightarrow> Inr x) :: error + real list)"
  have sel: "get_wLSVs_for_fit [[5]] [0] ''1'' None = Inr ([1], [[5]])"
    by (simp add: get_wLSVs_for_fit_def str_split_def is_space_def str_to_int_def is_digit_def
        digits_value_def slice_columns_def)
  have "Global ?min (\<lambda>A. ([[Fin 1]], [[Fin 1]])) [[5]] [0] 0 ''1'' [1, 1] None 0 True = Inl NameError"
    using Global_fit_irf_raises [of _ _ _ _ _ _ "[1, 1]" ?min, OF sel] by simp
  then show ?thesis .
qed

end
